theory Spec2Isabelle
  imports Main "HOL-Library.Sublist"
begin

section \<open>Faults\<close>

text \<open>
  The classes of \<^verbatim>\<open>common/error.ts\<close>. A \<^verbatim>\<open>throw\<close> of the source is a value
  \<open>Inl e\<close> of the model. The message of an \<open>InvariantError\<close> is kept, its details
  object is not.
\<close>

datatype TInnerCommonError =
    CancellationError
  | InvariantError string
  | UnknownError string

text \<open>
  Anything the code can \<^verbatim>\<open>throw\<close>, by the \<^verbatim>\<open>instanceof\<close> tests the sources make:
  an inner common error, a \<^verbatim>\<open>CommonError\<close> wrapping one, an inner parse error (by
  the name of its class), or any other value (a \<^verbatim>\<open>TypeError\<close> of the runtime, say).
\<close>

text \<open>
  Modelled from the spec: the assertion helpers of \<^verbatim>\<open>Assert\<close> are not among the
  sources. By the spec an \<open>InvariantError\<close> is a violated structural assumption; a
  failed assertion is the value \<open>InvariantError\<close> with the name of the assertion.
\<close>

datatype 'e Thrown =
    ThrownInnerCommon TInnerCommonError
  | ThrownCommonError TInnerCommonError
  | ThrownInnerParse 'e
  | ThrownOther string

section \<open>Grapheme columns (\<^verbatim>\<open>columnNumberFrom\<close>)\<close>

text \<open>
  A JavaScript string is a sequence of UTF-16 code units, here a list over any type
  \<open>'u\<close> of code units; \<^verbatim>\<open>s.length\<close> is \<open>length\<close>. The grapheme splitter is an
  external library and is a parameter \<open>splitGraphemes\<close> of the model.
  \<^verbatim>\<open>requiredCodeUnit\<close> is a JavaScript number and may be negative, so it is an \<open>int\<close>.
\<close>

text \<open>The \<^verbatim>\<open>for (const grapheme of graphemes)\<close> loop with its two counters.\<close>

fun columnNumberLoop :: "'u list list \<Rightarrow> int \<Rightarrow> nat \<Rightarrow> nat \<Rightarrow> TInnerCommonError + nat" where
  "columnNumberLoop [] requiredCodeUnit columnNumber summedCodeUnits =
     Inl (InvariantError ''no columnNumber can be generated for required codeUnit'')"
| "columnNumberLoop (grapheme # graphemes) requiredCodeUnit columnNumber summedCodeUnits =
     (if int summedCodeUnits = requiredCodeUnit then Inr columnNumber
      else columnNumberLoop graphemes requiredCodeUnit
             (columnNumber + 1) (summedCodeUnits + length grapheme))"

definition columnNumberFrom ::
  "('u list \<Rightarrow> 'u list list) \<Rightarrow> 'u list \<Rightarrow> int \<Rightarrow> TInnerCommonError + nat" where
  "columnNumberFrom splitGraphemes text requiredCodeUnit =
     columnNumberLoop (splitGraphemes text) requiredCodeUnit 0 0"

text \<open>The summed code-unit length of a sequence of graphemes.\<close>

definition codeUnits :: "'u list list \<Rightarrow> nat" where
  "codeUnits gs = length (concat gs)"

text \<open>A splitter for the examples: every code unit is a grapheme of its own.\<close>

definition splitEach :: "'u list \<Rightarrow> 'u list list" where
  "splitEach text = map (\<lambda>u. [u]) text"

section \<open>JavaScript containers\<close>

text \<open>
  A JavaScript \<^verbatim>\<open>Map\<close> keeps its keys in the order of their first insertion, and
  \<^verbatim>\<open>set\<close> on a key it already has replaces the value in place. It is an association
  list with distinct keys. A \<^verbatim>\<open>Set\<close> is a list without duplicates in insertion order.
  An array read out of range is \<^verbatim>\<open>undefined\<close>, here \<open>None\<close>.
\<close>

fun mapSet :: "('k \<times> 'v) list \<Rightarrow> 'k \<Rightarrow> 'v \<Rightarrow> ('k \<times> 'v) list" where
  "mapSet [] k v = [(k, v)]"
| "mapSet ((k', v') # m) k v =
     (if k' = k then (k, v) # m else (k', v') # mapSet m k v)"

definition newMap :: "('k \<times> 'v) list \<Rightarrow> ('k \<times> 'v) list" where
  "newMap entries = foldl (\<lambda>m (k, v). mapSet m k v) [] entries"

definition mapGet :: "('k \<times> 'v) list \<Rightarrow> 'k \<Rightarrow> 'v option" where
  "mapGet m k = map_of m k"

definition mapKeys :: "('k \<times> 'v) list \<Rightarrow> 'k list" where
  "mapKeys m = map fst m"

definition setAdd :: "'a list \<Rightarrow> 'a \<Rightarrow> 'a list" where
  "setAdd s x = (if x \<in> set s then s else s @ [x])"

fun at :: "'a list \<Rightarrow> nat \<Rightarrow> 'a option" where
  "at [] i = None"
| "at (x # xs) 0 = Some x"
| "at (x # xs) (Suc i) = at xs i"

text \<open>\<^verbatim>\<open>s.lastIndexOf(c)\<close>; the result \<open>-1\<close> of the source is \<open>None\<close>.\<close>

fun lastIndexOf :: "'a list \<Rightarrow> 'a \<Rightarrow> nat option" where
  "lastIndexOf [] c = None"
| "lastIndexOf (x # xs) c =
     (case lastIndexOf xs c of
        Some i \<Rightarrow> Some (Suc i)
      | None \<Rightarrow> if x = c then Some 0 else None)"

section \<open>Types of the language\<close>

text \<open>
  Modelled from the spec: the declarations of \<^verbatim>\<open>Type.TypeKind\<close> and of the operator
  constants, string enumerations from whose values the lookup keys are built, are not
  among the sources. The kinds are spelled as the spec names them (\<open>Number\<close>,
  \<open>Logical\<close>, \<open>Duration\<close>, ...) and the operators as the spec writes them (\<open>>\<close>,
  \<open>>=\<close>, \<open><\<close>, \<open><=\<close>, \<open>=\<close>, \<open><>\<close>, \<open>+\<close>, \<open>-\<close>, \<open>*\<close>, \<open>/\<close>, \<open>and\<close>, \<open>or\<close>,
  \<open>&\<close>).
\<close>

type_synonym TypeKind = string

abbreviation TypeKind_Any :: TypeKind where "TypeKind_Any \<equiv> ''Any''"
abbreviation TypeKind_Binary :: TypeKind where "TypeKind_Binary \<equiv> ''Binary''"
abbreviation TypeKind_Date :: TypeKind where "TypeKind_Date \<equiv> ''Date''"
abbreviation TypeKind_DateTime :: TypeKind where "TypeKind_DateTime \<equiv> ''DateTime''"
abbreviation TypeKind_DateTimeZone :: TypeKind where "TypeKind_DateTimeZone \<equiv> ''DateTimeZone''"
abbreviation TypeKind_Duration :: TypeKind where "TypeKind_Duration \<equiv> ''Duration''"
abbreviation TypeKind_List :: TypeKind where "TypeKind_List \<equiv> ''List''"
abbreviation TypeKind_Logical :: TypeKind where "TypeKind_Logical \<equiv> ''Logical''"
abbreviation TypeKind_None :: TypeKind where "TypeKind_None \<equiv> ''None''"
abbreviation TypeKind_Null :: TypeKind where "TypeKind_Null \<equiv> ''Null''"
abbreviation TypeKind_Number :: TypeKind where "TypeKind_Number \<equiv> ''Number''"
abbreviation TypeKind_Record :: TypeKind where "TypeKind_Record \<equiv> ''Record''"
abbreviation TypeKind_Table :: TypeKind where "TypeKind_Table \<equiv> ''Table''"
abbreviation TypeKind_Text :: TypeKind where "TypeKind_Text \<equiv> ''Text''"
abbreviation TypeKind_Time :: TypeKind where "TypeKind_Time \<equiv> ''Time''"
abbreviation TypeKind_Unknown :: TypeKind where "TypeKind_Unknown \<equiv> ''Unknown''"

type_synonym TBinOpExpressionOperator = string

abbreviation ArithmeticOperatorKind_Multiplication :: TBinOpExpressionOperator where
  "ArithmeticOperatorKind_Multiplication \<equiv> ''*''"
abbreviation ArithmeticOperatorKind_Division :: TBinOpExpressionOperator where
  "ArithmeticOperatorKind_Division \<equiv> ''/''"
abbreviation ArithmeticOperatorKind_Addition :: TBinOpExpressionOperator where
  "ArithmeticOperatorKind_Addition \<equiv> ''+''"
abbreviation ArithmeticOperatorKind_Subtraction :: TBinOpExpressionOperator where
  "ArithmeticOperatorKind_Subtraction \<equiv> ''-''"
abbreviation ArithmeticOperatorKind_And :: TBinOpExpressionOperator where
  "ArithmeticOperatorKind_And \<equiv> ''&''"
abbreviation EqualityOperatorKind_EqualTo :: TBinOpExpressionOperator where
  "EqualityOperatorKind_EqualTo \<equiv> ''=''"
abbreviation EqualityOperatorKind_NotEqualTo :: TBinOpExpressionOperator where
  "EqualityOperatorKind_NotEqualTo \<equiv> ''<>''"
abbreviation LogicalOperatorKind_And :: TBinOpExpressionOperator where
  "LogicalOperatorKind_And \<equiv> ''and''"
abbreviation LogicalOperatorKind_Or :: TBinOpExpressionOperator where
  "LogicalOperatorKind_Or \<equiv> ''or''"
abbreviation RelationalOperatorKind_GreaterThan :: TBinOpExpressionOperator where
  "RelationalOperatorKind_GreaterThan \<equiv> ''>''"
abbreviation RelationalOperatorKind_GreaterThanEqualTo :: TBinOpExpressionOperator where
  "RelationalOperatorKind_GreaterThanEqualTo \<equiv> ''>=''"
abbreviation RelationalOperatorKind_LessThan :: TBinOpExpressionOperator where
  "RelationalOperatorKind_LessThan \<equiv> ''<''"
abbreviation RelationalOperatorKind_LessThanEqualTo :: TBinOpExpressionOperator where
  "RelationalOperatorKind_LessThanEqualTo \<equiv> ''<=''"

datatype ExtendedTypeKind =
    ExtendedTypeKind_AnyUnion
  | ExtendedTypeKind_DefinedRecord
  | ExtendedTypeKind_DefinedTable

text \<open>
  A \<^verbatim>\<open>Type.TType\<close> object with the properties the sources read or write. A property
  that an object does not have (\<^verbatim>\<open>fields\<close> and \<^verbatim>\<open>isOpen\<close> of a primitive type,
  \<^verbatim>\<open>unionedTypePairs\<close> of anything but a union) is the empty list or \<open>False\<close>.
  \<^verbatim>\<open>fields\<close> is a \<^verbatim>\<open>Map\<close> from field names to types.
\<close>

datatype TType =
  TType (kind: TypeKind) (maybeExtendedKind: "ExtendedTypeKind option") (isNullable: bool)
        (fields: "(string \<times> TType) list") (isOpen: bool) (unionedTypePairs: "TType list")

text \<open>
  Modelled from the spec: \<^verbatim>\<open>TypeUtils.primitiveTypeFactory\<close> and the instances
  \<^verbatim>\<open>Type.UnknownInstance\<close> and \<^verbatim>\<open>Type.NoneInstance\<close> are not among the sources. A
  primitive type is a kind with a nullability and no extended kind, as the object
  literal of the union branch of \<^verbatim>\<open>inspectTypeTBinOpExpression\<close> spells it out.
\<close>

definition primitiveTypeFactory :: "bool \<Rightarrow> TypeKind \<Rightarrow> TType" where
  "primitiveTypeFactory nullable typeKind = TType typeKind None nullable [] False []"

definition UnknownInstance :: TType where
  "UnknownInstance = primitiveTypeFactory False TypeKind_Unknown"

definition NoneInstance :: TType where
  "NoneInstance = primitiveTypeFactory False TypeKind_None"

section \<open>The operator tables (\<^verbatim>\<open>Lookup\<close>, \<^verbatim>\<open>PartialLookup\<close>)\<close>

definition lookupKey :: "TypeKind \<Rightarrow> TBinOpExpressionOperator \<Rightarrow> TypeKind \<Rightarrow> string" where
  "lookupKey leftTypeKind operatorKind rightTypeKind =
     leftTypeKind @ '','' @ operatorKind @ '','' @ rightTypeKind"

definition partialLookupKey :: "TypeKind \<Rightarrow> TBinOpExpressionOperator \<Rightarrow> string" where
  "partialLookupKey leftTypeKind operatorKind = leftTypeKind @ '','' @ operatorKind"

definition createLookupsForRelational :: "TypeKind \<Rightarrow> (string \<times> TypeKind) list" where
  "createLookupsForRelational typeKind =
     [(lookupKey typeKind RelationalOperatorKind_GreaterThan typeKind, TypeKind_Logical),
      (lookupKey typeKind RelationalOperatorKind_GreaterThanEqualTo typeKind, TypeKind_Logical),
      (lookupKey typeKind RelationalOperatorKind_LessThan typeKind, TypeKind_Logical),
      (lookupKey typeKind RelationalOperatorKind_LessThanEqualTo typeKind, TypeKind_Logical)]"

definition createLookupsForEquality :: "TypeKind \<Rightarrow> (string \<times> TypeKind) list" where
  "createLookupsForEquality typeKind =
     [(lookupKey typeKind EqualityOperatorKind_EqualTo typeKind, TypeKind_Logical),
      (lookupKey typeKind EqualityOperatorKind_NotEqualTo typeKind, TypeKind_Logical)]"

definition createLookupsForArithmetic :: "TypeKind \<Rightarrow> (string \<times> TypeKind) list" where
  "createLookupsForArithmetic typeKind =
     [(lookupKey typeKind ArithmeticOperatorKind_Addition typeKind, typeKind),
      (lookupKey typeKind ArithmeticOperatorKind_Division typeKind, typeKind),
      (lookupKey typeKind ArithmeticOperatorKind_Multiplication typeKind, typeKind),
      (lookupKey typeKind ArithmeticOperatorKind_Subtraction typeKind, typeKind)]"

definition createLookupsForLogical :: "TypeKind \<Rightarrow> (string \<times> TypeKind) list" where
  "createLookupsForLogical typeKind =
     [(lookupKey typeKind LogicalOperatorKind_And typeKind, typeKind),
      (lookupKey typeKind LogicalOperatorKind_Or typeKind, typeKind)]"

definition createLookupsForClockKind :: "TypeKind \<Rightarrow> (string \<times> TypeKind) list" where
  "createLookupsForClockKind typeKind =
     [(lookupKey typeKind ArithmeticOperatorKind_Addition TypeKind_Duration, typeKind),
      (lookupKey TypeKind_Duration ArithmeticOperatorKind_Addition typeKind, typeKind),
      (lookupKey typeKind ArithmeticOperatorKind_Subtraction TypeKind_Duration, typeKind),
      (lookupKey typeKind ArithmeticOperatorKind_Subtraction typeKind, TypeKind_Duration)]"

text \<open>The array literal handed to \<^verbatim>\<open>new Map\<close>, in the order of the source.\<close>

definition LookupEntries :: "(string \<times> TypeKind) list" where
  "LookupEntries =
     createLookupsForRelational TypeKind_Null
   @ createLookupsForEquality TypeKind_Null

   @ createLookupsForRelational TypeKind_Logical
   @ createLookupsForEquality TypeKind_Logical
   @ createLookupsForLogical TypeKind_Logical

   @ createLookupsForRelational TypeKind_Number
   @ createLookupsForEquality TypeKind_Number
   @ createLookupsForArithmetic TypeKind_Number

   @ createLookupsForRelational TypeKind_Time
   @ createLookupsForEquality TypeKind_Time
   @ createLookupsForClockKind TypeKind_Time
   @ [(lookupKey TypeKind_Date ArithmeticOperatorKind_And TypeKind_Time, TypeKind_DateTime)]

   @ createLookupsForRelational TypeKind_Date
   @ createLookupsForEquality TypeKind_Date
   @ createLookupsForClockKind TypeKind_Date
   @ [(lookupKey TypeKind_Date ArithmeticOperatorKind_And TypeKind_Time, TypeKind_DateTime)]

   @ createLookupsForRelational TypeKind_DateTime
   @ createLookupsForEquality TypeKind_DateTime
   @ createLookupsForClockKind TypeKind_DateTime

   @ createLookupsForRelational TypeKind_DateTimeZone
   @ createLookupsForEquality TypeKind_DateTimeZone
   @ createLookupsForClockKind TypeKind_DateTimeZone

   @ createLookupsForRelational TypeKind_Duration
   @ createLookupsForEquality TypeKind_Duration
   @ [(lookupKey TypeKind_Duration ArithmeticOperatorKind_Addition TypeKind_Duration,
        TypeKind_Duration),
      (lookupKey TypeKind_Duration ArithmeticOperatorKind_Subtraction TypeKind_Duration,
        TypeKind_Duration),
      (lookupKey TypeKind_Duration ArithmeticOperatorKind_Multiplication TypeKind_Number,
        TypeKind_Duration),
      (lookupKey TypeKind_Number ArithmeticOperatorKind_Multiplication TypeKind_Duration,
        TypeKind_Duration),
      (lookupKey TypeKind_Duration ArithmeticOperatorKind_Division TypeKind_Number,
        TypeKind_Duration)]

   @ createLookupsForRelational TypeKind_Text
   @ createLookupsForEquality TypeKind_Text
   @ [(lookupKey TypeKind_Text ArithmeticOperatorKind_And TypeKind_Text, TypeKind_Text)]

   @ createLookupsForRelational TypeKind_Binary
   @ createLookupsForEquality TypeKind_Binary

   @ createLookupsForEquality TypeKind_List
   @ [(lookupKey TypeKind_List ArithmeticOperatorKind_And TypeKind_List, TypeKind_List)]

   @ createLookupsForEquality TypeKind_Record
   @ [(lookupKey TypeKind_Record ArithmeticOperatorKind_And TypeKind_Record, TypeKind_Record)]

   @ createLookupsForEquality TypeKind_Table
   @ [(lookupKey TypeKind_Table ArithmeticOperatorKind_And TypeKind_Table, TypeKind_Table)]"

definition Lookup :: "(string \<times> TypeKind) list" where
  "Lookup = newMap LookupEntries"

text \<open>
  The body of the \<^verbatim>\<open>reduce\<close> callback. With no comma in the key, \<^verbatim>\<open>lastIndexOf\<close> is
  \<open>-1\<close>, \<^verbatim>\<open>key.slice(0, -1)\<close> drops the last code unit and \<^verbatim>\<open>key.slice(0)\<close> is the
  whole key.
\<close>

definition partialKeyOf :: "string \<Rightarrow> string" where
  "partialKeyOf key =
     (case lastIndexOf key (CHR '','') of
        Some lastDeliminatorIndex \<Rightarrow> take lastDeliminatorIndex key
      | None \<Rightarrow> butlast key)"

definition potentialNewValueOf :: "string \<Rightarrow> TypeKind" where
  "potentialNewValueOf key =
     (case lastIndexOf key (CHR '','') of
        Some lastDeliminatorIndex \<Rightarrow> drop (lastDeliminatorIndex + 1) key
      | None \<Rightarrow> key)"

definition partialLookupReducer ::
  "(string \<times> TypeKind list) list \<Rightarrow> string \<Rightarrow> (string \<times> TypeKind list) list" where
  "partialLookupReducer binaryExpressionPartialLookup key =
     (let partialKey = partialKeyOf key;
          potentialNewValue = potentialNewValueOf key
      in case mapGet binaryExpressionPartialLookup partialKey of
           None \<Rightarrow> mapSet binaryExpressionPartialLookup partialKey [potentialNewValue]
         | Some maybeValues \<Rightarrow>
             mapSet binaryExpressionPartialLookup partialKey
               (setAdd maybeValues potentialNewValue))"

definition PartialLookup :: "(string \<times> TypeKind list) list" where
  "PartialLookup = newMap (foldl partialLookupReducer [] (mapKeys Lookup))"

text \<open>Looking one partial key up needs only the full keys that have it as their prefix.\<close>

fun valuesFrom :: "'v list option \<Rightarrow> 'v list \<Rightarrow> 'v list option" where
  "valuesFrom None [] = None"
| "valuesFrom None (v # vs) = Some (foldl setAdd [v] vs)"
| "valuesFrom (Some s) vs = Some (foldl setAdd s vs)"

section \<open>Syntax nodes\<close>

text \<open>
  The node kinds that the sources name, and one constructor for all the others.
  An AST node carries, besides \<^verbatim>\<open>id\<close>, \<^verbatim>\<open>kind\<close> and \<^verbatim>\<open>maybeAttributeIndex\<close>, the
  properties that the sources read after narrowing its kind: \<^verbatim>\<open>literal\<close> of an
  identifier or a literal expression, \<^verbatim>\<open>literalKind\<close> of a literal expression,
  \<^verbatim>\<open>constantKind\<close> of a constant (\<open>None\<close> where the object has no such property).
\<close>

datatype NodeKind =
    NodeKind_ArithmeticExpression
  | NodeKind_AsExpression
  | NodeKind_Constant
  | NodeKind_EqualityExpression
  | NodeKind_ErrorHandlingExpression
  | NodeKind_FunctionExpression
  | NodeKind_Identifier
  | NodeKind_IdentifierExpression
  | NodeKind_IdentifierPairedExpression
  | NodeKind_IsExpression
  | NodeKind_LetExpression
  | NodeKind_ListExpression
  | NodeKind_LiteralExpression
  | NodeKind_LogicalExpression
  | NodeKind_MetadataExpression
  | NodeKind_NullablePrimitiveType
  | NodeKind_Parameter
  | NodeKind_ParameterList
  | NodeKind_PrimitiveType
  | NodeKind_RelationalExpression
  | NodeKind_SectionMember
  | NodeKind_TypePrimaryType
  | NodeKind_Other string

datatype LiteralKind =
    LiteralKind_List
  | LiteralKind_Logical
  | LiteralKind_Null
  | LiteralKind_Numeric
  | LiteralKind_Record
  | LiteralKind_Text

record AstNode =
  astId :: nat
  astKind :: NodeKind
  astMaybeAttributeIndex :: "nat option"
  literal :: string
  literalKind :: "LiteralKind option"
  constantKind :: "string option"

record ContextNode =
  contextId :: nat
  contextKind :: NodeKind
  contextMaybeAttributeIndex :: "nat option"
  attributeCounter :: nat
  maybeParentId :: "nat option"

datatype TXorNode = XorAst AstNode | XorContext ContextNode

text \<open>\<^verbatim>\<open>xorNode.node.kind\<close>, \<^verbatim>\<open>xorNode.node.id\<close> and \<^verbatim>\<open>xorNode.node.maybeAttributeIndex\<close>.\<close>

fun xorNodeKind :: "TXorNode \<Rightarrow> NodeKind" where
  "xorNodeKind (XorAst n) = astKind n"
| "xorNodeKind (XorContext n) = contextKind n"

fun xorNodeId :: "TXorNode \<Rightarrow> nat" where
  "xorNodeId (XorAst n) = astId n"
| "xorNodeId (XorContext n) = contextId n"

fun xorMaybeAttributeIndex :: "TXorNode \<Rightarrow> nat option" where
  "xorMaybeAttributeIndex (XorAst n) = astMaybeAttributeIndex n"
| "xorMaybeAttributeIndex (XorContext n) = contextMaybeAttributeIndex n"

fun isXorContext :: "TXorNode \<Rightarrow> bool" where
  "isXorContext (XorAst n) = False"
| "isXorContext (XorContext n) = True"

section \<open>Binary-operator type inference (\<^verbatim>\<open>inspectTypeTBinOpExpression\<close>)\<close>

text \<open>
  What \<^verbatim>\<open>inspectTypeTBinOpExpression\<close> uses and the sources do not hold is a field of
  this record: the cancellation token of the settings (\<open>Some True\<close> is a token that has
  been cancelled), \<^verbatim>\<open>AstUtils.isTBinOpExpressionKind\<close>,
  \<^verbatim>\<open>NodeIdMapIterator.assertIterChildrenXor\<close> over the state's id map,
  the inspector \<^verbatim>\<open>inspectXor\<close> of an operand, and \<^verbatim>\<open>TypeUtils.anyUnionFactory\<close>.
  Each of the two that can throw returns a sum.
\<close>

record 'e InspectTypeState =
  maybeCancellationToken :: "bool option"
  isTBinOpExpressionKind :: "NodeKind \<Rightarrow> bool"
  assertIterChildrenXor :: "nat \<Rightarrow> 'e Thrown + TXorNode list"
  inspectXor :: "TXorNode \<Rightarrow> 'e Thrown + TType"
  anyUnionFactory :: "TType list \<Rightarrow> TType"

text \<open>\<^verbatim>\<open>{ ...extendedType, isOpen: true }\<close>\<close>

fun withIsOpen :: "TType \<Rightarrow> bool \<Rightarrow> TType" where
  "withIsOpen (TType k e n fs op us) b = TType k e n fs b us"

definition unionFields :: "TType \<Rightarrow> TType \<Rightarrow> TType" where
  "unionFields leftType rightType =
     (let combinedFields = foldl (\<lambda>m (key, val). mapSet m key val) (TType.fields leftType)
                             (TType.fields rightType)
      in TType (kind leftType) (maybeExtendedKind leftType)
           (isNullable leftType \<and> isNullable rightType)
           combinedFields
           (isOpen leftType \<or> isOpen rightType)
           (unionedTypePairs leftType))"

definition inspectRecordOrTableUnion :: "TType \<Rightarrow> TType \<Rightarrow> 'e Thrown + TType" where
  "inspectRecordOrTableUnion leftType rightType =
     (if kind leftType \<noteq> kind rightType
      then Inl (ThrownInnerCommon (InvariantError ''leftType.kind !== rightType.kind''))
      else if maybeExtendedKind leftType = None \<and> maybeExtendedKind rightType = None
      then Inr (primitiveTypeFactory (isNullable leftType \<or> isNullable rightType)
                  (kind leftType))
      else if (maybeExtendedKind leftType \<noteq> None \<and> maybeExtendedKind rightType = None)
            \<or> (maybeExtendedKind leftType = None \<and> maybeExtendedKind rightType \<noteq> None)
      then Inr (withIsOpen
                  (if maybeExtendedKind leftType \<noteq> None then leftType else rightType) True)
      else if maybeExtendedKind leftType = maybeExtendedKind rightType
      then Inr (unionFields leftType rightType)
      else Inl (ThrownInnerCommon (InvariantError ''Assert.shouldNeverBeReachedTypescript'')))"

text \<open>
  The branch \<^verbatim>\<open>'1 +'\<close> (no right operand yet) and the branch \<^verbatim>\<open>'1 + 1'\<close> of
  \<^verbatim>\<open>inspectTypeTBinOpExpression\<close>, each a definition of its own.
\<close>

definition inspectPartialBinOp ::
  "'e InspectTypeState \<Rightarrow> TXorNode \<Rightarrow> TBinOpExpressionOperator \<Rightarrow> 'e Thrown + TType" where
  "inspectPartialBinOp state left operatorKind =
     (case inspectXor state left of
        Inl err \<Rightarrow> Inl err
      | Inr leftType \<Rightarrow>
          (case mapGet PartialLookup (partialLookupKey (kind leftType) operatorKind) of
             None \<Rightarrow> Inr NoneInstance
           | Some maybeAllowedTypeKinds \<Rightarrow>
               (case maybeAllowedTypeKinds of
                  [only] \<Rightarrow> Inr (primitiveTypeFactory (isNullable leftType) only)
                | _ \<Rightarrow>
                    Inr (anyUnionFactory state
                           (map (\<lambda>k. TType k None True [] False []) maybeAllowedTypeKinds)))))"

definition inspectFullBinOp ::
  "'e InspectTypeState \<Rightarrow> TXorNode \<Rightarrow> TBinOpExpressionOperator \<Rightarrow> TXorNode
     \<Rightarrow> 'e Thrown + TType" where
  "inspectFullBinOp state left operatorKind right =
     (case inspectXor state left of
        Inl err \<Rightarrow> Inl err
      | Inr leftType \<Rightarrow>
          (case inspectXor state right of
             Inl err \<Rightarrow> Inl err
           | Inr rightType \<Rightarrow>
               (case mapGet Lookup (lookupKey (kind leftType) operatorKind (kind rightType)) of
                  None \<Rightarrow> Inr NoneInstance
                | Some resultTypeKind \<Rightarrow>
                    if operatorKind = ArithmeticOperatorKind_And
                       \<and> (resultTypeKind = TypeKind_Record \<or> resultTypeKind = TypeKind_Table)
                    then inspectRecordOrTableUnion leftType rightType
                    else Inr (primitiveTypeFactory
                                (isNullable leftType \<or> isNullable rightType) resultTypeKind))))"

definition inspectTypeTBinOpExpression :: "'e InspectTypeState \<Rightarrow> TXorNode \<Rightarrow> 'e Thrown + TType" where
  "inspectTypeTBinOpExpression state xorNode =
     (if maybeCancellationToken state = Some True then Inl (ThrownInnerCommon CancellationError)
      else if \<not> isTBinOpExpressionKind state (xorNodeKind xorNode)
      then Inl (ThrownInnerCommon
                  (InvariantError ''Assert.isTrue: xorNode is not a TBinOpExpression''))
      else
        case assertIterChildrenXor state (xorNodeId xorNode) of
          Inl err \<Rightarrow> Inl err
        | Inr children \<Rightarrow>
            let maybeLeft = at children 0;
                maybeOperatorKind =
                  (case at children 1 of
                     None \<Rightarrow> None
                   | Some (XorContext n) \<Rightarrow> None
                   | Some (XorAst n) \<Rightarrow> constantKind n);
                maybeRight = at children 2
            in
              case maybeLeft of
                None \<Rightarrow> Inr UnknownInstance
              | Some left \<Rightarrow>
                  (case maybeOperatorKind of
                     None \<Rightarrow> inspectXor state left
                   | Some operatorKind \<Rightarrow>
                       (case maybeRight of
                          None \<Rightarrow> inspectPartialBinOp state left operatorKind
                        | Some right \<Rightarrow>
                            if isXorContext right
                            then inspectPartialBinOp state left operatorKind
                            else inspectFullBinOp state left operatorKind right)))"

text \<open>
  Modelled from the spec: \<^verbatim>\<open>TypeUtils.anyUnionFactory\<close> and the inspector of a literal
  are not among the sources. The examples use a union that keeps its members and is
  nullable when a member is, and an inspector that gives a literal the non-nullable
  primitive type of its kind: scenario S7 types \<^verbatim>\<open>"abc" & "def"\<close> as the non-nullable
  \<open>Text\<close>, which the rule \<^verbatim>\<open>leftType.isNullable || rightType.isNullable\<close> of the source
  yields only for two non-nullable literal types.
\<close>

definition anyUnionOf :: "TType list \<Rightarrow> TType" where
  "anyUnionOf members =
     TType TypeKind_Any (Some ExtendedTypeKind_AnyUnion) (list_ex isNullable members)
       [] False members"

fun typeKindFromLiteralKind :: "LiteralKind \<Rightarrow> TypeKind" where
  "typeKindFromLiteralKind LiteralKind_List = TypeKind_List"
| "typeKindFromLiteralKind LiteralKind_Logical = TypeKind_Logical"
| "typeKindFromLiteralKind LiteralKind_Null = TypeKind_Null"
| "typeKindFromLiteralKind LiteralKind_Numeric = TypeKind_Number"
| "typeKindFromLiteralKind LiteralKind_Record = TypeKind_Record"
| "typeKindFromLiteralKind LiteralKind_Text = TypeKind_Text"

fun inspectLiteral :: "TXorNode \<Rightarrow> 'e Thrown + TType" where
  "inspectLiteral (XorAst n) =
     (case literalKind n of
        Some k \<Rightarrow> Inr (primitiveTypeFactory (k = LiteralKind_Null) (typeKindFromLiteralKind k))
      | None \<Rightarrow> Inr UnknownInstance)"
| "inspectLiteral (XorContext n) = Inr UnknownInstance"

text \<open>
  The nodes of the partially parsed \<^verbatim>\<open>1 +\<close>: the open arithmetic expression with
  the literal \<open>1\<close>, the operator constant and the open context of the right operand.
\<close>

definition literalOne :: AstNode where
  "literalOne = \<lparr>astId = 3, astKind = NodeKind_LiteralExpression,
     astMaybeAttributeIndex = Some 0, literal = ''1'',
     literalKind = Some LiteralKind_Numeric, constantKind = None\<rparr>"

definition constantPlus :: AstNode where
  "constantPlus = \<lparr>astId = 4, astKind = NodeKind_Constant,
     astMaybeAttributeIndex = Some 1, literal = [],
     literalKind = None, constantKind = Some ArithmeticOperatorKind_Addition\<rparr>"

definition openRightOperand :: ContextNode where
  "openRightOperand = \<lparr>contextId = 5, contextKind = NodeKind_LiteralExpression,
     contextMaybeAttributeIndex = Some 2, attributeCounter = 0, maybeParentId = Some 2\<rparr>"

definition openSum :: ContextNode where
  "openSum = \<lparr>contextId = 2, contextKind = NodeKind_ArithmeticExpression,
     contextMaybeAttributeIndex = None, attributeCounter = 2, maybeParentId = Some 1\<rparr>"

definition onePlusState :: "unit InspectTypeState" where
  "onePlusState = \<lparr>maybeCancellationToken = None,
     isTBinOpExpressionKind = (\<lambda>k. k = NodeKind_ArithmeticExpression),
     assertIterChildrenXor = (\<lambda>parentId.
        if parentId = 2 then Inr [XorAst literalOne, XorAst constantPlus, XorContext openRightOperand]
        else Inr []),
     inspectXor = inspectLiteral,
     anyUnionFactory = anyUnionOf\<rparr>"

definition constantMinus :: AstNode where
  "constantMinus = \<lparr>astId = 4, astKind = NodeKind_Constant,
     astMaybeAttributeIndex = Some 1, literal = [],
     literalKind = None, constantKind = Some ArithmeticOperatorKind_Subtraction\<rparr>"

text \<open>An open subtraction whose left operand is typed as a non-nullable \<open>Time\<close>.\<close>

definition timeMinusState :: "unit InspectTypeState" where
  "timeMinusState = \<lparr>maybeCancellationToken = None,
     isTBinOpExpressionKind = (\<lambda>k. k = NodeKind_ArithmeticExpression),
     assertIterChildrenXor = (\<lambda>parentId. Inr [XorAst literalOne, XorAst constantMinus]),
     inspectXor = (\<lambda>x. Inr (primitiveTypeFactory False TypeKind_Time)),
     anyUnionFactory = anyUnionOf\<rparr>"

text \<open>
  A finished \<^verbatim>\<open>&\<close> expression between two operands of given types, as in scenario S8
  (\<^verbatim>\<open>[a=1] & [b=2]\<close>).
\<close>

definition constantAmpersand :: AstNode where
  "constantAmpersand = \<lparr>astId = 4, astKind = NodeKind_Constant,
     astMaybeAttributeIndex = Some 1, literal = [],
     literalKind = None, constantKind = Some ArithmeticOperatorKind_And\<rparr>"

definition operandNode :: "nat \<Rightarrow> nat \<Rightarrow> AstNode" where
  "operandNode nodeId attributeIndex = \<lparr>astId = nodeId, astKind = NodeKind_Other ''RecordExpression'',
     astMaybeAttributeIndex = Some attributeIndex, literal = [],
     literalKind = None, constantKind = None\<rparr>"

definition finishedSum :: AstNode where
  "finishedSum = \<lparr>astId = 2, astKind = NodeKind_ArithmeticExpression,
     astMaybeAttributeIndex = None, literal = [],
     literalKind = None, constantKind = None\<rparr>"

definition ampersandState :: "TType \<Rightarrow> TType \<Rightarrow> unit InspectTypeState" where
  "ampersandState leftType rightType = \<lparr>maybeCancellationToken = None,
     isTBinOpExpressionKind = (\<lambda>k. k = NodeKind_ArithmeticExpression),
     assertIterChildrenXor = (\<lambda>parentId.
        Inr [XorAst (operandNode 3 0), XorAst constantAmpersand, XorAst (operandNode 5 2)]),
     inspectXor = (\<lambda>x. if xorNodeId x = 3 then Inr leftType else Inr rightType),
     anyUnionFactory = anyUnionOf\<rparr>"

definition definedRecord :: "(string \<times> TType) list \<Rightarrow> bool \<Rightarrow> bool \<Rightarrow> TType" where
  "definedRecord fs nullable open =
     TType TypeKind_Record (Some ExtendedTypeKind_DefinedRecord) nullable fs open []"

section \<open>Tokens and the parser state\<close>

text \<open>
  A token as the spec gives it (\<^verbatim>\<open>{ kind, data, positionStart, positionEnd }\<close>), the
  \<^verbatim>\<open>GraphemePosition\<close> of the sources, and of the lexer snapshot its token array and
  its method \<^verbatim>\<open>graphemePositionStartFrom\<close> (an external collaborator, a field here).
\<close>

record TokenPosition =
  tokenLineCodeUnit :: nat
  tokenLineNumber :: nat
  tokenCodeUnit :: nat

record Token =
  tokenKind :: string
  tokenData :: string
  positionStart :: TokenPosition
  positionEnd :: TokenPosition

record GraphemePosition =
  graphemeLineNumber :: nat
  graphemeLineCodeUnit :: nat
  columnNumber :: nat
  maybeCodeUnit :: "nat option"

record LexerSnapshot =
  tokens :: "Token list"
  graphemePositionStartFrom :: "Token \<Rightarrow> GraphemePosition"

text \<open>
  The inner parse errors: the one that \<^verbatim>\<open>assertNoMoreTokens\<close> constructs, and any
  other class of \<^verbatim>\<open>TInnerParseError\<close> by its name.
\<close>

datatype TInnerParseError =
    UnusedTokensRemainError Token GraphemePosition
  | OtherInnerParseError string

text \<open>
  The id map and the context state. Each \<^verbatim>\<open>Map\<close> is an association list in insertion
  order; \<^verbatim>\<open>leafNodeIds\<close> is the array of the sources.
\<close>

record Collection =
  astNodeById :: "(nat \<times> AstNode) list"
  contextNodeById :: "(nat \<times> ContextNode) list"
  parentIdById :: "(nat \<times> nat) list"
  childIdsById :: "(nat \<times> nat list) list"

record ContextState =
  idCounter :: nat
  nodeIdMapCollection :: Collection
  leafNodeIds :: "nat list"

text \<open>
  \<^verbatim>\<open>IParserState\<close>, without the settings and the localization templates (messages are
  not modelled).
\<close>

record IParserState =
  lexerSnapshot :: LexerSnapshot
  tokenIndex :: nat
  maybeCurrentToken :: "Token option"
  maybeCurrentTokenKind :: "string option"
  contextState :: ContextState
  maybeCurrentContextNode :: "ContextNode option"

section \<open>The parse boundary (\<^verbatim>\<open>tryRead\<close>)\<close>

text \<open>
  \<^verbatim>\<open>ParseOk\<close> is \<^verbatim>\<open>{ root, nodeIdMapCollection, leafNodeIds, state }\<close> in this order.
  A \<^verbatim>\<open>ParseError\<close> holds whatever value the constructor was given, and the state.
\<close>

datatype ParseOk = ParseOk AstNode Collection "nat list" IParserState

datatype TParseError =
    CommonError TInnerCommonError
  | ParseError "TInnerParseError Thrown" IParserState

datatype TriedParse = Ok ParseOk | Err TParseError

text \<open>
  Modelled from the spec: \<^verbatim>\<open>ParseError.isTInnerParseError\<close> is not among the sources;
  it holds of the thrown inner parse errors.
\<close>

fun isTInnerParseError :: "'e Thrown \<Rightarrow> bool" where
  "isTInnerParseError (ThrownInnerParse e) = True"
| "isTInnerParseError _ = False"

text \<open>
  \<^verbatim>\<open>CommonError.ensureCommonError\<close>: a \<^verbatim>\<open>CommonError\<close> is returned as it is, an inner
  common error is wrapped, anything else is wrapped in an \<^verbatim>\<open>UnknownError\<close> first.
\<close>

fun ensureCommonError :: "TInnerParseError Thrown \<Rightarrow> TParseError" where
  "ensureCommonError (ThrownCommonError inner) = CommonError inner"
| "ensureCommonError (ThrownInnerCommon inner) = CommonError inner"
| "ensureCommonError (ThrownInnerParse e) = CommonError (UnknownError ''TInnerParseError'')"
| "ensureCommonError (ThrownOther description) = CommonError (UnknownError description)"

definition assertGetTokenAt :: "IParserState \<Rightarrow> nat \<Rightarrow> TInnerParseError Thrown + Token" where
  "assertGetTokenAt state index =
     (case at (tokens (lexerSnapshot state)) index of
        None \<Rightarrow> Inl (ThrownInnerCommon (InvariantError ''Assert.isDefined''))
      | Some maybeToken \<Rightarrow> Inr maybeToken)"

definition assertNoMoreTokens :: "IParserState \<Rightarrow> TInnerParseError Thrown + unit" where
  "assertNoMoreTokens state =
     (if tokenIndex state = length (tokens (lexerSnapshot state)) then Inr ()
      else
        case assertGetTokenAt state (tokenIndex state) of
          Inl err \<Rightarrow> Inl err
        | Inr token \<Rightarrow>
            Inl (ThrownInnerParse
                   (UnusedTokensRemainError token
                      (graphemePositionStartFrom (lexerSnapshot state) token))))"

definition assertNoOpenContext :: "IParserState \<Rightarrow> TInnerCommonError + unit" where
  "assertNoOpenContext state =
     (if maybeCurrentContextNode state = None then Inr ()
      else Inl (InvariantError ''Assert.isUndefined''))"

text \<open>
  \<^verbatim>\<open>parser.read\<close> mutates the state and either returns the root or throws: the model of
  a reader returns the outcome together with the state it leaves.
\<close>

type_synonym Reader = "IParserState \<Rightarrow> (TInnerParseError Thrown + AstNode) \<times> IParserState"

definition tryRead :: "IParserState \<Rightarrow> Reader \<Rightarrow> TriedParse" where
  "tryRead state0 read =
     (case read state0 of
        (Inl err, state) \<Rightarrow>
          if isTInnerParseError err then Err (ParseError err state)
          else Err (ensureCommonError err)
      | (Inr root, state) \<Rightarrow>
          (case assertNoOpenContext state of
             Inl err \<Rightarrow> Err (CommonError err)
           | Inr _ \<Rightarrow>
               (case assertNoMoreTokens state of
                  Inl err \<Rightarrow> Err (ParseError err state)
                | Inr _ \<Rightarrow>
                    Ok (ParseOk root
                          (nodeIdMapCollection (contextState state))
                          (leafNodeIds (contextState state))
                          state))))"

text \<open>Examples: a state over given tokens, and a reader with a fixed outcome.\<close>

definition newCollection :: Collection where
  "newCollection = \<lparr>astNodeById = [], contextNodeById = [], parentIdById = [],
     childIdsById = []\<rparr>"

definition stateOver :: "Token list \<Rightarrow> nat \<Rightarrow> ContextNode option \<Rightarrow> IParserState" where
  "stateOver ts index maybeContext =
     \<lparr>lexerSnapshot = \<lparr>tokens = ts,
         graphemePositionStartFrom = (\<lambda>t. \<lparr>graphemeLineNumber = tokenLineNumber (positionStart t),
            graphemeLineCodeUnit = tokenLineCodeUnit (positionStart t),
            columnNumber = tokenLineCodeUnit (positionStart t),
            maybeCodeUnit = Some (tokenCodeUnit (positionStart t))\<rparr>)\<rparr>,
      tokenIndex = index, maybeCurrentToken = at ts index,
      maybeCurrentTokenKind = map_option tokenKind (at ts index),
      contextState = \<lparr>idCounter = 0, nodeIdMapCollection = newCollection, leafNodeIds = []\<rparr>,
      maybeCurrentContextNode = maybeContext\<rparr>"

definition readWith :: "(TInnerParseError Thrown + AstNode) \<Rightarrow> nat \<Rightarrow> Reader" where
  "readWith outcome consumed state = (outcome, state\<lparr>tokenIndex := tokenIndex state + consumed\<rparr>)"

definition numberToken :: Token where
  "numberToken = \<lparr>tokenKind = ''NumericLiteral'', tokenData = ''1'',
     positionStart = \<lparr>tokenLineCodeUnit = 0, tokenLineNumber = 0, tokenCodeUnit = 0\<rparr>,
     positionEnd = \<lparr>tokenLineCodeUnit = 1, tokenLineNumber = 0, tokenCodeUnit = 1\<rparr>\<rparr>"

section \<open>Keyword autocomplete (\<^verbatim>\<open>autocompleteKeyword\<close>)\<close>

text \<open>
  Modelled from the spec: the declaration of the string enumeration
  \<^verbatim>\<open>Keyword.KeywordKind\<close> is not among the sources. A keyword kind is the spelling of
  the keyword, the conjunction keywords being \<open>and\<close>, \<open>as\<close>, \<open>is\<close>, \<open>meta\<close>, \<open>or\<close>.
\<close>

type_synonym KeywordKind = string

abbreviation KeywordKind_And :: KeywordKind where "KeywordKind_And \<equiv> ''and''"
abbreviation KeywordKind_As :: KeywordKind where "KeywordKind_As \<equiv> ''as''"
abbreviation KeywordKind_Each :: KeywordKind where "KeywordKind_Each \<equiv> ''each''"
abbreviation KeywordKind_Error :: KeywordKind where "KeywordKind_Error \<equiv> ''error''"
abbreviation KeywordKind_False :: KeywordKind where "KeywordKind_False \<equiv> ''false''"
abbreviation KeywordKind_If :: KeywordKind where "KeywordKind_If \<equiv> ''if''"
abbreviation KeywordKind_Is :: KeywordKind where "KeywordKind_Is \<equiv> ''is''"
abbreviation KeywordKind_Let :: KeywordKind where "KeywordKind_Let \<equiv> ''let''"
abbreviation KeywordKind_Meta :: KeywordKind where "KeywordKind_Meta \<equiv> ''meta''"
abbreviation KeywordKind_Not :: KeywordKind where "KeywordKind_Not \<equiv> ''not''"
abbreviation KeywordKind_Or :: KeywordKind where "KeywordKind_Or \<equiv> ''or''"
abbreviation KeywordKind_Section :: KeywordKind where "KeywordKind_Section \<equiv> ''section''"
abbreviation KeywordKind_True :: KeywordKind where "KeywordKind_True \<equiv> ''true''"
abbreviation KeywordKind_Try :: KeywordKind where "KeywordKind_Try \<equiv> ''try''"
abbreviation KeywordKind_Type :: KeywordKind where "KeywordKind_Type \<equiv> ''type''"


text \<open>\<^verbatim>\<open>s.startsWith(p)\<close>\<close>

definition startsWith :: "string \<Rightarrow> string \<Rightarrow> bool" where
  "startsWith s p = prefix p s"

record Position =
  lineNumber :: nat
  lineCodeUnit :: nat

record TrailingToken = Token +
  isInOrOnPosition :: bool

datatype ActiveNodeLeafKind =
    ActiveNodeLeafKind_OnAstNode
  | ActiveNodeLeafKind_AfterAstNode
  | ActiveNodeLeafKind_ContextNode

record ActiveNode =
  position :: Position
  ancestry :: "TXorNode list"
  leafKind :: ActiveNodeLeafKind
  maybeIdentifierUnderPosition :: "AstNode option"

record InspectAutocompleteKeywordState =
  stateNodeIdMapCollection :: Collection
  stateLeafNodeIds :: "nat list"
  activeNode :: ActiveNode
  maybeTrailingToken :: "TrailingToken option"
  parent :: TXorNode
  child :: TXorNode
  ancestryIndex :: nat

text \<open>
  What the autocomplete functions use and the sources do not hold: the position
  predicates of \<^verbatim>\<open>PositionUtils\<close>, \<^verbatim>\<open>XorNodeUtils.isTUnaryType\<close>,
  \<^verbatim>\<open>autocompleteKeywordTrailingText\<close>, the routine of each parent kind (which returns a
  list, or nothing to keep walking, or throws), and the two constant lists
  \<^verbatim>\<open>Keyword.StartOfDocumentKeywords\<close> and \<^verbatim>\<open>Constant.PrimitiveTypeConstantKinds\<close>.
\<close>

record Collaborators =
  isInXor :: "Collection \<Rightarrow> Position \<Rightarrow> TXorNode \<Rightarrow> bool \<Rightarrow> bool \<Rightarrow> bool"
  isAfterAst :: "Position \<Rightarrow> AstNode \<Rightarrow> bool \<Rightarrow> bool"
  isAfterTokenPosition :: "Position \<Rightarrow> TokenPosition \<Rightarrow> bool \<Rightarrow> bool"
  isTUnaryType :: "TXorNode \<Rightarrow> bool"
  autocompleteKeywordTrailingText ::
    "KeywordKind list \<Rightarrow> TrailingToken \<Rightarrow> KeywordKind list option \<Rightarrow> KeywordKind list"
  autocompleteKeywordErrorHandlingExpression ::
    "InspectAutocompleteKeywordState \<Rightarrow> unit Thrown + KeywordKind list option"
  autocompleteKeywordIdentifierPairedExpression ::
    "InspectAutocompleteKeywordState \<Rightarrow> unit Thrown + KeywordKind list option"
  autocompleteKeywordLetExpression ::
    "InspectAutocompleteKeywordState \<Rightarrow> unit Thrown + KeywordKind list option"
  autocompleteKeywordListExpression ::
    "InspectAutocompleteKeywordState \<Rightarrow> unit Thrown + KeywordKind list option"
  autocompleteKeywordSectionMember ::
    "InspectAutocompleteKeywordState \<Rightarrow> unit Thrown + KeywordKind list option"
  autocompleteKeywordDefault ::
    "InspectAutocompleteKeywordState \<Rightarrow> unit Thrown + KeywordKind list option"
  StartOfDocumentKeywords :: "KeywordKind list"
  PrimitiveTypeConstantKinds :: "string list"

definition ConjunctionKeywords :: "KeywordKind list" where
  "ConjunctionKeywords =
     [KeywordKind_And, KeywordKind_As, KeywordKind_Is, KeywordKind_Meta, KeywordKind_Or]"

text \<open>
  Modelled from the spec: \<^verbatim>\<open>ArrayUtils.concatUnique\<close> is not among the sources; the
  spec has the conjunction keywords added to the suggestions "deduplicated, first
  occurrence wins".
\<close>

definition concatUnique :: "'a list \<Rightarrow> 'a list \<Rightarrow> 'a list" where
  "concatUnique left right = foldl setAdd [] (left @ right)"

text \<open>\<^verbatim>\<open>AncestryUtils.assertGetLeaf\<close>, and the two navigation functions.\<close>

definition assertGetLeaf :: "TXorNode list \<Rightarrow> unit Thrown + TXorNode" where
  "assertGetLeaf xs =
     (case at xs 0 of
        None \<Rightarrow> Inl (ThrownInnerCommon (InvariantError ''Assert.isDefined''))
      | Some maybeLeaf \<Rightarrow> Inr maybeLeaf)"



text \<open>The first statements of \<^verbatim>\<open>autocompleteKeyword\<close>, which set \<^verbatim>\<open>maybePositionName\<close>.\<close>

definition maybePositionNameOf ::
  "Collaborators \<Rightarrow> Collection \<Rightarrow> ActiveNode \<Rightarrow> TXorNode \<Rightarrow> string option" where
  "maybePositionNameOf collaborators collection active ancestryLeaf =
     (if isInXor collaborators collection (position active) ancestryLeaf False True
      then
        (case maybeIdentifierUnderPosition active of
           Some identifier \<Rightarrow> Some (literal identifier)
         | None \<Rightarrow>
             (case ancestryLeaf of
                XorAst n \<Rightarrow>
                  if astKind n = NodeKind_LiteralExpression
                     \<and> (literalKind n = Some LiteralKind_Logical
                          \<or> literalKind n = Some LiteralKind_Null)
                  then Some (literal n) else None
              | XorContext n \<Rightarrow> None))
      else None)"

text \<open>\<^verbatim>\<open>filterRecommendations\<close> of \<^verbatim>\<open>autocompleteKeyword.ts\<close>.\<close>

definition filterRecommendations :: "KeywordKind list \<Rightarrow> string option \<Rightarrow> KeywordKind list" where
  "filterRecommendations inspected maybePositionName =
     (case maybePositionName of
        None \<Rightarrow> inspected
      | Some positionName \<Rightarrow> filter (\<lambda>kind. startsWith kind positionName) inspected)"

definition handleConjunctions ::
  "Collaborators \<Rightarrow> ActiveNode \<Rightarrow> KeywordKind list \<Rightarrow> TrailingToken option
     \<Rightarrow> unit Thrown + KeywordKind list" where
  "handleConjunctions collaborators active inspected trailing =
     (if leafKind active \<noteq> ActiveNodeLeafKind_AfterAstNode
         \<and> leafKind active \<noteq> ActiveNodeLeafKind_ContextNode
      then Inr inspected
      else
        case assertGetLeaf (ancestry active) of
          Inl err \<Rightarrow> Inl err
        | Inr activeNodeLeaf \<Rightarrow>
            (case (case trailing of
                     None \<Rightarrow> None
                   | Some t \<Rightarrow> if isInOrOnPosition t then Some t else None) of
               Some t \<Rightarrow> Inr (autocompleteKeywordTrailingText collaborators inspected t None)
             | None \<Rightarrow>
                 if isTUnaryType collaborators activeNodeLeaf
                 then
                   (if (case trailing of
                          None \<Rightarrow> False
                        | Some t \<Rightarrow>
                            isAfterTokenPosition collaborators (position active)
                              (positionStart t) False)
                    then Inr inspected
                    else if \<not> isXorContext activeNodeLeaf
                    then Inr (concatUnique inspected ConjunctionKeywords)
                    else Inr inspected)
                 else Inr inspected))"

text \<open>
  The \<^verbatim>\<open>switch\<close> of \<^verbatim>\<open>traverseAncestors\<close>, and its loop over
  \<^verbatim>\<open>ancestryIndex = 1, ..., numNodes - 1\<close>: the model walks the parents that remain,
  with the child below the first of them and its index.
\<close>

definition inspectParent ::
  "Collaborators \<Rightarrow> InspectAutocompleteKeywordState \<Rightarrow> unit Thrown + KeywordKind list option" where
  "inspectParent collaborators state =
     (case xorNodeKind (parent state) of
        NodeKind_ErrorHandlingExpression \<Rightarrow>
          autocompleteKeywordErrorHandlingExpression collaborators state
      | NodeKind_IdentifierPairedExpression \<Rightarrow>
          autocompleteKeywordIdentifierPairedExpression collaborators state
      | NodeKind_LetExpression \<Rightarrow> autocompleteKeywordLetExpression collaborators state
      | NodeKind_ListExpression \<Rightarrow> autocompleteKeywordListExpression collaborators state
      | NodeKind_SectionMember \<Rightarrow> autocompleteKeywordSectionMember collaborators state
      | _ \<Rightarrow> autocompleteKeywordDefault collaborators state)"

fun traverseLoop ::
  "Collaborators \<Rightarrow> InspectAutocompleteKeywordState \<Rightarrow> TXorNode \<Rightarrow> TXorNode list \<Rightarrow> nat
     \<Rightarrow> unit Thrown + KeywordKind list" where
  "traverseLoop collaborators state lower [] index = Inr []"
| "traverseLoop collaborators state lower (upper # rest) index =
     (let state' = state\<lparr>ancestryIndex := index, parent := upper, child := lower\<rparr> in
      case inspectParent collaborators state' of
        Inl err \<Rightarrow> Inl err
      | Inr (Some maybeInspected) \<Rightarrow> Inr maybeInspected
      | Inr None \<Rightarrow> traverseLoop collaborators state' upper rest (index + 1))"

definition traverseAncestors ::
  "Collaborators \<Rightarrow> InspectAutocompleteKeywordState \<Rightarrow> unit Thrown + KeywordKind list" where
  "traverseAncestors collaborators state =
     (case ancestry (activeNode state) of
        [] \<Rightarrow> Inr []
      | leaf # parents \<Rightarrow> traverseLoop collaborators state leaf parents 1)"

text \<open>
  \<^verbatim>\<open>maybeEdgeCase\<close>. It is called with two ancestors at least; reading a property of
  an ancestor that is not there is the \<^verbatim>\<open>TypeError\<close> of the runtime.
\<close>

definition maybeEdgeCase ::
  "Collaborators \<Rightarrow> InspectAutocompleteKeywordState \<Rightarrow> TrailingToken option
     \<Rightarrow> unit Thrown + KeywordKind list option" where
  "maybeEdgeCase collaborators state trailing =
     (case ancestry (activeNode state) of
        first # second # rest \<Rightarrow>
          if trailing = None \<and> rest = []
             \<and> (case first of
                   XorAst n \<Rightarrow> astKind n = NodeKind_Identifier
                 | XorContext n \<Rightarrow> False)
             \<and> xorNodeKind second = NodeKind_IdentifierExpression
          then
            (case first of
               XorAst n \<Rightarrow>
                 Inr (Some (filter (\<lambda>keywordKind. startsWith keywordKind (literal n))
                              (StartOfDocumentKeywords collaborators)))
             | XorContext n \<Rightarrow> Inr None)
          else if (case first of
                     XorAst n \<Rightarrow>
                       astKind n = NodeKind_Identifier
                       \<and> xorNodeKind second = NodeKind_Parameter
                       \<and> isAfterAst collaborators (position (activeNode state)) n True
                   | XorContext n \<Rightarrow> False)
          then Inr (Some [KeywordKind_As])
          else if (case trailing of None \<Rightarrow> False | Some t \<Rightarrow> tokenData t = ''a'')
                  \<and> isXorContext first
                  \<and> xorNodeKind first = NodeKind_Constant
                  \<and> xorNodeKind second = NodeKind_ParameterList
          then
            (case at rest 0 of
               None \<Rightarrow> Inl (ThrownOther ''TypeError'')
             | Some third \<Rightarrow>
                 if xorNodeKind third = NodeKind_FunctionExpression
                 then Inr (Some [KeywordKind_As]) else Inr None)
          else Inr None
      | _ \<Rightarrow> Inl (ThrownOther ''TypeError''))"

text \<open>The state record that \<^verbatim>\<open>autocompleteKeyword\<close> builds for the walk.\<close>

definition keywordState ::
  "Collection \<Rightarrow> nat list \<Rightarrow> ActiveNode \<Rightarrow> TrailingToken option \<Rightarrow> TXorNode
     \<Rightarrow> InspectAutocompleteKeywordState" where
  "keywordState collection leafIds active trailing ancestryLeaf =
     \<lparr>stateNodeIdMapCollection = collection,
      stateLeafNodeIds = leafIds,
      activeNode = active,
      maybeTrailingToken = trailing,
      parent = ancestry active ! 1,
      child = ancestryLeaf,
      ancestryIndex = 0\<rparr>"

definition autocompleteKeyword ::
  "Collaborators \<Rightarrow> Collection \<Rightarrow> nat list \<Rightarrow> ActiveNode \<Rightarrow> TrailingToken option
     \<Rightarrow> unit Thrown + KeywordKind list" where
  "autocompleteKeyword collaborators collection leafIds active trailing =
     (case assertGetLeaf (ancestry active) of
        Inl err \<Rightarrow> Inl err
      | Inr ancestryLeaf \<Rightarrow>
          let maybePositionName =
                maybePositionNameOf collaborators collection active ancestryLeaf
          in
            if length (ancestry active) < 2
            then
              (case handleConjunctions collaborators active [] trailing of
                 Inl err \<Rightarrow> Inl err
               | Inr inspected \<Rightarrow> Inr (filterRecommendations inspected maybePositionName))
            else
              let state = keywordState collection leafIds active trailing ancestryLeaf
              in
                case maybeEdgeCase collaborators state trailing of
                  Inl err \<Rightarrow> Inl err
                | Inr (Some maybeEarlyExitInspected) \<Rightarrow> Inr maybeEarlyExitInspected
                | Inr None \<Rightarrow>
                    (case traverseAncestors collaborators state of
                       Inl err \<Rightarrow> Inl err
                     | Inr ancestors \<Rightarrow>
                         (case handleConjunctions collaborators (activeNode state) ancestors
                                 trailing of
                            Inl err \<Rightarrow> Inl err
                          | Inr inspected \<Rightarrow>
                              Inr (filterRecommendations inspected maybePositionName))))"

section \<open>Primitive-type autocomplete (\<^verbatim>\<open>autocompletePrimitiveType\<close>)\<close>




text \<open>
  The suggestions that the walk over the ancestors contributes: none for fewer than two
  ancestors, the result of \<^verbatim>\<open>traverseAncestors\<close> otherwise.
\<close>

definition ancestrySuggestions ::
  "Collaborators \<Rightarrow> Collection \<Rightarrow> nat list \<Rightarrow> ActiveNode \<Rightarrow> TrailingToken option
     \<Rightarrow> TXorNode \<Rightarrow> unit Thrown + KeywordKind list" where
  "ancestrySuggestions collaborators collection leafIds active trailing ancestryLeaf =
     (if length (ancestry active) < 2 then Inr []
      else traverseAncestors collaborators
             (keywordState collection leafIds active trailing ancestryLeaf))"

text \<open>
  Modelled from the spec: the two constant lists are not among the sources. The
  keywords that can start a document are those that start an expression, and
  \<open>section\<close>; scenario S10 has \<open>let\<close> as the only one of them that begins with \<open>l\<close>.
\<close>

definition startOfDocumentKeywords :: "KeywordKind list" where
  "startOfDocumentKeywords =
     [KeywordKind_Each, KeywordKind_Error, KeywordKind_False, KeywordKind_If,
      KeywordKind_Let, KeywordKind_Not, KeywordKind_True, KeywordKind_Try,
      KeywordKind_Type, KeywordKind_Section]"

definition primitiveTypeConstantKinds :: "string list" where
  "primitiveTypeConstantKinds =
     [''action'', ''any'', ''anynonnull'', ''binary'', ''date'', ''datetime'',
      ''datetimezone'', ''duration'', ''function'', ''list'', ''logical'', ''none'',
      ''null'', ''number'', ''record'', ''table'', ''text'', ''time'', ''type'']"

text \<open>
  Collaborators for the examples: the two position predicates answer as given, no
  routine of a parent kind has a suggestion, literals and identifier expressions are
  unary-type expressions, and trailing text narrows by prefix.
\<close>

definition exampleCollaborators :: "bool \<Rightarrow> bool \<Rightarrow> Collaborators" where
  "exampleCollaborators inXor afterAst =
     \<lparr>isInXor = (\<lambda>collection p x lower upper. inXor),
      isAfterAst = (\<lambda>p n included. afterAst),
      isAfterTokenPosition = (\<lambda>p t included. False),
      isTUnaryType = (\<lambda>x. xorNodeKind x = NodeKind_LiteralExpression
                            \<or> xorNodeKind x = NodeKind_IdentifierExpression),
      autocompleteKeywordTrailingText =
        (\<lambda>inspected t previous. filter (\<lambda>k. startsWith k (tokenData t)) inspected),
      autocompleteKeywordErrorHandlingExpression = (\<lambda>state. Inr None),
      autocompleteKeywordIdentifierPairedExpression = (\<lambda>state. Inr None),
      autocompleteKeywordLetExpression = (\<lambda>state. Inr None),
      autocompleteKeywordListExpression = (\<lambda>state. Inr None),
      autocompleteKeywordSectionMember = (\<lambda>state. Inr None),
      autocompleteKeywordDefault = (\<lambda>state. Inr None),
      StartOfDocumentKeywords = startOfDocumentKeywords,
      PrimitiveTypeConstantKinds = primitiveTypeConstantKinds\<rparr>"

text \<open>The documents \<^verbatim>\<open>true|\<close>, \<^verbatim>\<open>1|\<close> and \<^verbatim>\<open>l|\<close>, the caret at the end.\<close>

definition literalTrue :: AstNode where
  "literalTrue = \<lparr>astId = 1, astKind = NodeKind_LiteralExpression,
     astMaybeAttributeIndex = None, literal = ''true'',
     literalKind = Some LiteralKind_Logical, constantKind = None\<rparr>"

definition caretAfter :: "nat \<Rightarrow> TXorNode list \<Rightarrow> AstNode option \<Rightarrow> ActiveNode" where
  "caretAfter column nodes identifier =
     \<lparr>position = \<lparr>lineNumber = 0, lineCodeUnit = column\<rparr>,
      ancestry = nodes,
      leafKind = ActiveNodeLeafKind_AfterAstNode,
      maybeIdentifierUnderPosition = identifier\<rparr>"

definition identifierL :: AstNode where
  "identifierL = \<lparr>astId = 2, astKind = NodeKind_Identifier,
     astMaybeAttributeIndex = Some 1, literal = ''l'',
     literalKind = None, constantKind = None\<rparr>"

definition identifierExpressionL :: AstNode where
  "identifierExpressionL = \<lparr>astId = 1, astKind = NodeKind_IdentifierExpression,
     astMaybeAttributeIndex = None, literal = [],
     literalKind = None, constantKind = None\<rparr>"




section \<open>Parse contexts (\<^verbatim>\<open>startContext\<close>, \<^verbatim>\<open>endContext\<close>, \<^verbatim>\<open>deleteContext\<close>)\<close>

text \<open>
  \<^verbatim>\<open>map.delete(key)\<close>; the child ids of a node (none when it has no entry); and the
  entry of an object that is held in a map and mutated through another reference: the
  value under its key changes in place, and a map that does not hold it is unchanged.
\<close>

definition mapDelete :: "('k \<times> 'v) list \<Rightarrow> 'k \<Rightarrow> ('k \<times> 'v) list" where
  "mapDelete m k = filter (\<lambda>entry. fst entry \<noteq> k) m"

definition mapReplace :: "('k \<times> 'v) list \<Rightarrow> 'k \<Rightarrow> 'v \<Rightarrow> ('k \<times> 'v) list" where
  "mapReplace m k v = map (\<lambda>entry. if fst entry = k then (k, v) else entry) m"

definition childIdsOf :: "Collection \<Rightarrow> nat \<Rightarrow> nat list" where
  "childIdsOf collection nodeId =
     (case mapGet (childIdsById collection) nodeId of None \<Rightarrow> [] | Some childIds \<Rightarrow> childIds)"

text \<open>
  Modelled from the spec: \<^verbatim>\<open>ParseContextUtils.newState\<close>,
  \<^verbatim>\<open>ParseContextUtils.startContext\<close> and \<^verbatim>\<open>ParseContextUtils.endContext\<close> are not
  among the sources. By section 4.2 of the spec, starting a context "allocates next id,
  sets parent = current context, appends to parent's childIds, advances parent's
  \<^verbatim>\<open>attributeCounter\<close>"; the attribute index of the new context is the counter of the
  parent before the advance (invariant 5), and the first id is 1. The parent is the
  object that the map holds, so its entry advances with it. The token arguments of the
  source's call are dropped, the context node of this model having no token fields.
\<close>

definition ParseContextUtils_newState :: ContextState where
  "ParseContextUtils_newState =
     \<lparr>idCounter = 0,
      nodeIdMapCollection =
        \<lparr>astNodeById = [], contextNodeById = [], parentIdById = [], childIdsById = []\<rparr>,
      leafNodeIds = []\<rparr>"

definition ParseContextUtils_startContext ::
  "ContextState \<Rightarrow> NodeKind \<Rightarrow> ContextNode option \<Rightarrow> ContextState \<times> ContextNode" where
  "ParseContextUtils_startContext state nodeKind maybeParentNode =
     (let nodeId = idCounter state + 1;
          collection = nodeIdMapCollection state;
          contextNode =
            \<lparr>contextId = nodeId, contextKind = nodeKind,
             contextMaybeAttributeIndex = map_option attributeCounter maybeParentNode,
             attributeCounter = 0,
             maybeParentId = map_option contextId maybeParentNode\<rparr>;
          wired =
            (case maybeParentNode of
               None \<Rightarrow> collection
             | Some parentNode \<Rightarrow>
                 collection
                   \<lparr>contextNodeById :=
                      mapReplace (contextNodeById collection) (contextId parentNode)
                        (parentNode\<lparr>attributeCounter := attributeCounter parentNode + 1\<rparr>),
                    parentIdById :=
                      mapSet (parentIdById collection) nodeId (contextId parentNode),
                    childIdsById :=
                      mapSet (childIdsById collection) (contextId parentNode)
                        (childIdsOf collection (contextId parentNode) @ [nodeId])\<rparr>)
      in (state\<lparr>idCounter := nodeId,
                nodeIdMapCollection :=
                  wired\<lparr>contextNodeById := mapSet (contextNodeById wired) nodeId contextNode\<rparr>\<rparr>,
          contextNode))"

text \<open>
  Modelled from the spec: which kinds are terminal is not among the sources; they are
  taken to be the kinds that hold one token and no child.
\<close>

fun isTerminalKind :: "NodeKind \<Rightarrow> bool" where
  "isTerminalKind NodeKind_Constant = True"
| "isTerminalKind NodeKind_Identifier = True"
| "isTerminalKind NodeKind_LiteralExpression = True"
| "isTerminalKind NodeKind_PrimitiveType = True"
| "isTerminalKind (NodeKind_Other name) = (name = ''GeneralizedIdentifier'')"
| "isTerminalKind _ = False"

text \<open>
  Modelled from the spec: \<^verbatim>\<open>ParseContextUtils.endContext\<close> is not among the sources. By
  section 4.2 of the spec it "asserts the current context matches; inserts
  \<^verbatim>\<open>astPayload\<close> into \<^verbatim>\<open>astNodeById\<close> at that id; removes from \<^verbatim>\<open>contextNodeById\<close>;
  records the node in \<^verbatim>\<open>leafNodeIds\<close> if its kind is terminal; returns parent as new
  current", and "promoting a kind that mismatches the payload's kind is an invariant
  violation".
\<close>

definition ParseContextUtils_endContext ::
  "ContextState \<Rightarrow> ContextNode \<Rightarrow> AstNode
     \<Rightarrow> TInnerParseError Thrown + (ContextState \<times> ContextNode option)" where
  "ParseContextUtils_endContext state contextNode astNode =
     (let collection = nodeIdMapCollection state;
          nodeId = contextId contextNode
      in
        if mapGet (contextNodeById collection) nodeId = None
        then Inl (ThrownInnerCommon (InvariantError ''contextNodeById.has(contextNode.id)''))
        else if astKind astNode \<noteq> contextKind contextNode
        then Inl (ThrownInnerCommon (InvariantError ''astNode.kind === contextNode.kind''))
        else
          let promoted =
                collection
                  \<lparr>astNodeById := mapSet (astNodeById collection) nodeId astNode,
                   contextNodeById := mapDelete (contextNodeById collection) nodeId\<rparr>
          in Inr (state\<lparr>nodeIdMapCollection := promoted,
                        leafNodeIds :=
                          (if isTerminalKind (astKind astNode)
                           then leafNodeIds state @ [nodeId] else leafNodeIds state)\<rparr>,
                  case mapGet (parentIdById collection) nodeId of
                    None \<Rightarrow> None
                  | Some parentId \<Rightarrow> mapGet (contextNodeById promoted) parentId))"

text \<open>
  Modelled from the spec: \<^verbatim>\<open>ParseContextUtils.deleteAst\<close> and
  \<^verbatim>\<open>ParseContextUtils.deleteContext\<close> are not among the sources. By the spec a deletion
  asserts that the node is in its map and removes it, so that the child list of the
  parent stays consistent with \<^verbatim>\<open>parentIdById\<close> (invariant 2) and \<^verbatim>\<open>leafNodeIds\<close>
  holds ids of AST nodes only (invariant 6); what becomes of the children of the deleted
  node is the policy of the spec ("if the parent will also be deleted, children are
  dropped silently; otherwise each child is reparented"). The policy is a parameter of
  the model, applied when the deleted node still has children; \<open>reparentChildren\<close> below
  is one reading of it.
\<close>

type_synonym ChildrenPolicy =
  "Collection \<Rightarrow> nat \<Rightarrow> nat option \<Rightarrow> nat list \<Rightarrow> bool \<Rightarrow> Collection"

definition removeFromParent :: "(nat \<times> nat list) list \<Rightarrow> nat option \<Rightarrow> nat \<Rightarrow> (nat \<times> nat list) list" where
  "removeFromParent childIds maybeParent nodeId =
     (case maybeParent of
        None \<Rightarrow> childIds
      | Some parentId \<Rightarrow>
          map (\<lambda>entry. if fst entry = parentId
                        then (fst entry, filter (\<lambda>c. c \<noteq> nodeId) (snd entry))
                        else entry) childIds)"

definition deleteNode :: "ChildrenPolicy \<Rightarrow> Collection \<Rightarrow> nat \<Rightarrow> bool \<Rightarrow> Collection" where
  "deleteNode policy collection nodeId parentWillBeDeleted =
     (let maybeParent = mapGet (parentIdById collection) nodeId;
          childIds = childIdsOf collection nodeId;
          rewired = (if childIds = [] then collection
                     else policy collection nodeId maybeParent childIds parentWillBeDeleted)
      in rewired
           \<lparr>astNodeById := mapDelete (astNodeById rewired) nodeId,
            contextNodeById := mapDelete (contextNodeById rewired) nodeId,
            parentIdById := mapDelete (parentIdById rewired) nodeId,
            childIdsById :=
              mapDelete (removeFromParent (childIdsById rewired) maybeParent nodeId) nodeId\<rparr>)"

definition ParseContextUtils_deleteAst ::
  "ChildrenPolicy \<Rightarrow> ContextState \<Rightarrow> nat \<Rightarrow> bool \<Rightarrow> TInnerParseError Thrown + ContextState" where
  "ParseContextUtils_deleteAst policy state nodeId parentWillBeDeleted =
     (if mapGet (astNodeById (nodeIdMapCollection state)) nodeId = None
      then Inl (ThrownInnerCommon (InvariantError ''astNodeById.has(nodeId)''))
      else Inr (state\<lparr>nodeIdMapCollection :=
                         deleteNode policy (nodeIdMapCollection state) nodeId
                           parentWillBeDeleted,
                       leafNodeIds := filter (\<lambda>leafId. leafId \<noteq> nodeId) (leafNodeIds state)\<rparr>))"

text \<open>
  \<^verbatim>\<open>deleteContext\<close> has no hint; it returns the parent of the deleted context as the new
  current context.
\<close>

definition ParseContextUtils_deleteContext ::
  "ChildrenPolicy \<Rightarrow> ContextState \<Rightarrow> nat
     \<Rightarrow> TInnerParseError Thrown + (ContextState \<times> ContextNode option)" where
  "ParseContextUtils_deleteContext policy state nodeId =
     (if mapGet (contextNodeById (nodeIdMapCollection state)) nodeId = None
      then Inl (ThrownInnerCommon (InvariantError ''contextNodeById.has(nodeId)''))
      else
        let maybeParent = mapGet (parentIdById (nodeIdMapCollection state)) nodeId;
            collection = deleteNode policy (nodeIdMapCollection state) nodeId False
        in Inr (state\<lparr>nodeIdMapCollection := collection\<rparr>,
                case maybeParent of
                  None \<Rightarrow> None
                | Some parentId \<Rightarrow> mapGet (contextNodeById collection) parentId))"

text \<open>
  One reading of the policy for the children: dropped (their parent entries removed)
  when the parent will be deleted, moved to the parent of the deleted node, in its
  place, otherwise.
\<close>

definition reparentChildren :: ChildrenPolicy where
  "reparentChildren collection nodeId maybeParent childIds parentWillBeDeleted =
     (case (parentWillBeDeleted, maybeParent) of
        (False, Some parentId) \<Rightarrow>
          collection
            \<lparr>parentIdById :=
               foldl (\<lambda>m c. mapSet m c parentId) (parentIdById collection) childIds,
             childIdsById :=
               map (\<lambda>entry. if fst entry = parentId
                             then (fst entry,
                                   concat (map (\<lambda>c. if c = nodeId then childIds else [c])
                                             (snd entry)))
                             else entry) (childIdsById collection)\<rparr>
      | _ \<Rightarrow>
          collection
            \<lparr>parentIdById := foldl mapDelete (parentIdById collection) childIds\<rparr>)"

section \<open>The parser state (\<^verbatim>\<open>IParserStateUtils\<close>)\<close>

text \<open>
  \<^verbatim>\<open>stateFactory\<close>, \<^verbatim>\<open>startContext\<close>, \<^verbatim>\<open>endContext\<close>, \<^verbatim>\<open>deleteContext\<close> and
  \<^verbatim>\<open>incrementAttributeCounter\<close>. A function that throws does so before it changes the
  state. \<^verbatim>\<open>deleteContext\<close> deletes with the policy \<open>reparentChildren\<close>. The current
  context is the object that the map holds: \<^verbatim>\<open>incrementAttributeCounter\<close> advances the
  entry with it.
\<close>

definition stateFactory :: "LexerSnapshot \<Rightarrow> IParserState" where
  "stateFactory snapshot =
     \<lparr>lexerSnapshot = snapshot,
      tokenIndex = 0,
      maybeCurrentToken = at (tokens snapshot) 0,
      maybeCurrentTokenKind = map_option tokenKind (at (tokens snapshot) 0),
      contextState = ParseContextUtils_newState,
      maybeCurrentContextNode = None\<rparr>"

definition startContext :: "IParserState \<Rightarrow> NodeKind \<Rightarrow> IParserState" where
  "startContext state nodeKind =
     (case ParseContextUtils_startContext (contextState state) nodeKind
             (maybeCurrentContextNode state) of
        (started, newContextNode) \<Rightarrow>
          state\<lparr>contextState := started, maybeCurrentContextNode := Some newContextNode\<rparr>)"

definition endContext :: "IParserState \<Rightarrow> AstNode \<Rightarrow> TInnerParseError Thrown + IParserState" where
  "endContext state astNode =
     (case maybeCurrentContextNode state of
        None \<Rightarrow> Inl (ThrownInnerCommon (InvariantError ''Assert.isDefined''))
      | Some currentContextNode \<Rightarrow>
          (case ParseContextUtils_endContext (contextState state) currentContextNode astNode of
             Inl err \<Rightarrow> Inl err
           | Inr (ended, maybeParentOfContextNode) \<Rightarrow>
               Inr (state\<lparr>contextState := ended,
                          maybeCurrentContextNode := maybeParentOfContextNode\<rparr>)))"

definition deleteContext ::
  "IParserState \<Rightarrow> nat option \<Rightarrow> TInnerParseError Thrown + IParserState" where
  "deleteContext state maybeNodeId =
     (case (case maybeNodeId of
              None \<Rightarrow>
                (case maybeCurrentContextNode state of
                   None \<Rightarrow> Inl (ThrownInnerCommon (InvariantError ''Assert.isDefined''))
                 | Some currentContextNode \<Rightarrow> Inr (contextId currentContextNode))
            | Some nodeId \<Rightarrow> Inr nodeId) of
        Inl err \<Rightarrow> Inl err
      | Inr nodeId \<Rightarrow>
          (case ParseContextUtils_deleteContext reparentChildren (contextState state) nodeId of
             Inl err \<Rightarrow> Inl err
           | Inr (deleted, newCurrent) \<Rightarrow>
               Inr (state\<lparr>contextState := deleted, maybeCurrentContextNode := newCurrent\<rparr>)))"

definition incrementAttributeCounter ::
  "IParserState \<Rightarrow> TInnerParseError Thrown + IParserState" where
  "incrementAttributeCounter state =
     (case maybeCurrentContextNode state of
        None \<Rightarrow> Inl (ThrownInnerCommon (InvariantError ''Assert.isDefined''))
      | Some currentContextNode \<Rightarrow>
          let advanced =
                currentContextNode\<lparr>attributeCounter := attributeCounter currentContextNode + 1\<rparr>;
              collection = nodeIdMapCollection (contextState state)
          in Inr (state
                    \<lparr>contextState :=
                       (contextState state)
                         \<lparr>nodeIdMapCollection :=
                            collection
                              \<lparr>contextNodeById :=
                                 mapReplace (contextNodeById collection)
                                   (contextId currentContextNode) advanced\<rparr>\<rparr>,
                     maybeCurrentContextNode := Some advanced\<rparr>))"

section \<open>Speculative reads (\<^verbatim>\<open>fastStateBackup\<close>, \<^verbatim>\<open>applyFastStateBackup\<close>)\<close>

text \<open>
  \<^verbatim>\<open>FastStateBackup\<close>; its field \<^verbatim>\<open>tokenIndex\<close> is \<open>backupTokenIndex\<close> here, the
  name \<open>tokenIndex\<close> being the field of the parser state.
\<close>

record FastStateBackup =
  backupTokenIndex :: nat
  contextStateIdCounter :: nat
  maybeContextNodeId :: "nat option"

definition fastStateBackup :: "IParserState \<Rightarrow> FastStateBackup" where
  "fastStateBackup state =
     \<lparr>backupTokenIndex = tokenIndex state,
      contextStateIdCounter = idCounter (contextState state),
      maybeContextNodeId = map_option contextId (maybeCurrentContextNode state)\<rparr>"

text \<open>
  The two deletion loops of \<^verbatim>\<open>applyFastStateBackup\<close>. The hint of \<^verbatim>\<open>deleteAst\<close> is
  computed from \<^verbatim>\<open>parentIdById\<close> as it is when the node's turn comes.
\<close>

fun deleteAstNodes ::
  "ChildrenPolicy \<Rightarrow> ContextState \<Rightarrow> nat \<Rightarrow> nat list \<Rightarrow> TInnerParseError Thrown + ContextState" where
  "deleteAstNodes policy state backupIdCounter [] = Inr state"
| "deleteAstNodes policy state backupIdCounter (nodeId # nodeIds) =
     (let maybeParentId = mapGet (parentIdById (nodeIdMapCollection state)) nodeId;
          parentWillBeDeleted =
            (case maybeParentId of None \<Rightarrow> False | Some parentId \<Rightarrow> parentId \<ge> backupIdCounter)
      in case ParseContextUtils_deleteAst policy state nodeId parentWillBeDeleted of
           Inl err \<Rightarrow> Inl err
         | Inr state' \<Rightarrow> deleteAstNodes policy state' backupIdCounter nodeIds)"

fun deleteContextNodes ::
  "ChildrenPolicy \<Rightarrow> ContextState \<Rightarrow> nat list \<Rightarrow> TInnerParseError Thrown + ContextState" where
  "deleteContextNodes policy state [] = Inr state"
| "deleteContextNodes policy state (nodeId # nodeIds) =
     (case ParseContextUtils_deleteContext policy state nodeId of
        Inl err \<Rightarrow> Inl err
      | Inr (state', newCurrent) \<Rightarrow> deleteContextNodes policy state' nodeIds)"

definition newAstNodeIds :: "Collection \<Rightarrow> nat \<Rightarrow> nat list" where
  "newAstNodeIds collection backupIdCounter =
     filter (\<lambda>nodeId. nodeId > backupIdCounter) (mapKeys (astNodeById collection))"

definition newContextNodeIds :: "Collection \<Rightarrow> nat \<Rightarrow> nat list" where
  "newContextNodeIds collection backupIdCounter =
     filter (\<lambda>nodeId. nodeId > backupIdCounter) (mapKeys (contextNodeById collection))"

text \<open>
  \<^verbatim>\<open>applyFastStateBackup\<close>. \<^verbatim>\<open>sort(sortByNumber).reverse()\<close> is \<open>rev (sort ids)\<close>; the
  test \<^verbatim>\<open>if (backup.maybeContextNodeId)\<close> fails for \<^verbatim>\<open>undefined\<close> and for \<open>0\<close>.
\<close>

definition applyFastStateBackup ::
  "ChildrenPolicy \<Rightarrow> IParserState \<Rightarrow> FastStateBackup \<Rightarrow> TInnerParseError Thrown + IParserState" where
  "applyFastStateBackup policy state backup =
     (let restored = state
            \<lparr>tokenIndex := backupTokenIndex backup,
             maybeCurrentToken := at (tokens (lexerSnapshot state)) (backupTokenIndex backup),
             maybeCurrentTokenKind :=
               map_option tokenKind
                 (at (tokens (lexerSnapshot state)) (backupTokenIndex backup))\<rparr>;
          collection = nodeIdMapCollection (contextState state);
          backupIdCounter = contextStateIdCounter backup;
          counted = (contextState state)\<lparr>idCounter := backupIdCounter\<rparr>
      in
        case deleteAstNodes policy counted backupIdCounter
               (rev (sort (newAstNodeIds collection backupIdCounter))) of
          Inl err \<Rightarrow> Inl err
        | Inr withoutAst \<Rightarrow>
            (case deleteContextNodes policy withoutAst
                    (rev (sort (newContextNodeIds collection backupIdCounter))) of
               Inl err \<Rightarrow> Inl err
             | Inr withoutContexts \<Rightarrow>
                 (case (case maybeContextNodeId backup of
                          None \<Rightarrow> None
                        | Some nodeId \<Rightarrow> if nodeId = 0 then None else Some nodeId) of
                    Some nodeId \<Rightarrow>
                      (case mapGet (contextNodeById (nodeIdMapCollection withoutContexts))
                              nodeId of
                         None \<Rightarrow> Inl (ThrownInnerCommon (InvariantError ''assertGetContext''))
                       | Some contextNode \<Rightarrow>
                           Inr (restored\<lparr>contextState := withoutContexts,
                                          maybeCurrentContextNode := Some contextNode\<rparr>))
                  | None \<Rightarrow>
                      Inr (restored\<lparr>contextState := withoutContexts,
                                     maybeCurrentContextNode := None\<rparr>))))"

section \<open>Reads\<close>

text \<open>
  Modelled from the spec: the readers of the parser are not among the sources. By
  section 4.3 of the spec every production calls \<^verbatim>\<open>startContext\<close>, reads the expected
  tokens, recursing into sub-productions, and calls \<^verbatim>\<open>endContext\<close> with the node it has
  built. A read is then one of five: a token read; an advance of the attribute counter
  (a slot that is skipped); a throw (a diagnostic, or any other fault); a production,
  with its kind, its parts, and how it ends its context, by promotion to the given node
  or by deleting it (\<^verbatim>\<open>deleteContext(state, undefined)\<close>); an attempt, where a backup
  is taken, some reads are tried inside a \<^verbatim>\<open>try\<close> block and, when they throw, the
  backup is applied and other reads are run in their place (section 4.3 of the spec, and
  the comment above \<^verbatim>\<open>fastStateBackup\<close> in the source). Reading a token moves to the
  next token and throws when none is left.
\<close>

datatype Ending = EndContext AstNode | DeleteContext

datatype Read =
    ReadToken
  | IncrementAttributeCounter
  | Throw "TInnerParseError Thrown"
  | Production NodeKind "Read list" Ending
  | Attempt "Read list" "Read list"

definition readToken :: "IParserState \<Rightarrow> TInnerParseError Thrown + IParserState" where
  "readToken state =
     (if length (tokens (lexerSnapshot state)) \<le> tokenIndex state
      then Inl (ThrownInnerCommon (InvariantError ''Assert.isFalse''))
      else
        let index = tokenIndex state + 1 in
        Inr (state\<lparr>tokenIndex := index,
                   maybeCurrentToken := at (tokens (lexerSnapshot state)) index,
                   maybeCurrentTokenKind :=
                     map_option tokenKind (at (tokens (lexerSnapshot state)) index)\<rparr>))"

text \<open>
  Modelled from the spec: the driver of the readers is not among the sources. Running
  reads gives what was thrown, if anything, and the state that is left. A throw ends the
  run where it happens, the contexts that are open staying open: the state that a run
  leaves when it throws is the state of the parser at that moment of the parse.
\<close>

fun runRead :: "Read \<Rightarrow> IParserState \<Rightarrow> TInnerParseError Thrown option \<times> IParserState"
and runReads :: "Read list \<Rightarrow> IParserState \<Rightarrow> TInnerParseError Thrown option \<times> IParserState"
where
  "runRead ReadToken state =
     (case readToken state of
        Inl err \<Rightarrow> (Some err, state)
      | Inr state' \<Rightarrow> (None, state'))"
| "runRead IncrementAttributeCounter state =
     (case incrementAttributeCounter state of
        Inl err \<Rightarrow> (Some err, state)
      | Inr state' \<Rightarrow> (None, state'))"
| "runRead (Throw err) state = (Some err, state)"
| "runRead (Production nodeKind parts ending) state =
     (case runReads parts (startContext state nodeKind) of
        (Some err, state') \<Rightarrow> (Some err, state')
      | (None, state') \<Rightarrow>
          (case (case ending of
                   EndContext astNode \<Rightarrow> endContext state' astNode
                 | DeleteContext \<Rightarrow> deleteContext state' None) of
             Inl err \<Rightarrow> (Some err, state')
           | Inr state'' \<Rightarrow> (None, state'')))"
| "runRead (Attempt tried otherwise) state =
     (case runReads tried state of
        (None, state') \<Rightarrow> (None, state')
      | (Some err, state') \<Rightarrow>
          (case applyFastStateBackup reparentChildren state' (fastStateBackup state) of
             Inl err' \<Rightarrow> (Some err', state')
           | Inr restored \<Rightarrow> runReads otherwise restored))"
| "runReads [] state = (None, state)"
| "runReads (part # parts) state =
     (case runRead part state of
        (Some err, state') \<Rightarrow> (Some err, state')
      | (None, state') \<Rightarrow> runReads parts state')"

text \<open>The state of a parse of the given tokens that has run the given reads.\<close>

definition parsed :: "LexerSnapshot \<Rightarrow> Read list \<Rightarrow> IParserState" where
  "parsed snapshot reads = snd (runReads reads (stateFactory snapshot))"

section \<open>Id maps compared\<close>

text \<open>
  The id map without the ids of a set: the entries of those ids are gone from the four
  maps, and so are the ids from the child lists that stay; nothing else changes, the
  order of entries and of children included.
\<close>

definition withoutIds :: "nat set \<Rightarrow> Collection \<Rightarrow> Collection" where
  "withoutIds gone collection =
     collection
       \<lparr>astNodeById := filter (\<lambda>entry. fst entry \<notin> gone) (astNodeById collection),
        contextNodeById := filter (\<lambda>entry. fst entry \<notin> gone) (contextNodeById collection),
        parentIdById := filter (\<lambda>entry. fst entry \<notin> gone) (parentIdById collection),
        childIdsById :=
          map (\<lambda>entry. (fst entry, filter (\<lambda>c. c \<notin> gone) (snd entry)))
            (filter (\<lambda>entry. fst entry \<notin> gone) (childIdsById collection))\<rparr>"

text \<open>
  What an observer of the id map sees: the AST nodes by id, the ids of the open
  contexts, the parent of each id, and the children of each id in order.
\<close>

definition observablyEqual :: "Collection \<Rightarrow> Collection \<Rightarrow> bool" where
  "observablyEqual a b \<longleftrightarrow>
     map_of (astNodeById a) = map_of (astNodeById b)
     \<and> set (mapKeys (contextNodeById a)) = set (mapKeys (contextNodeById b))
     \<and> map_of (parentIdById a) = map_of (parentIdById b)
     \<and> childIdsOf a = childIdsOf b"

text \<open>
  The invariants of the id map that the rollback rests on (spec, section 3): the keys of
  each map are distinct and no id is both an AST node and a context; a parent has a
  smaller id than its child, every id with a parent or with a child list is a node, and
  the parent of a context is a context; a child list names only nodes whose parent is
  the owner of the list.
\<close>

definition wellFormed :: "Collection \<Rightarrow> bool" where
  "wellFormed collection \<longleftrightarrow>
     distinct (mapKeys (astNodeById collection))
     \<and> distinct (mapKeys (contextNodeById collection))
     \<and> set (mapKeys (astNodeById collection)) \<inter> set (mapKeys (contextNodeById collection)) = {}
     \<and> (\<forall>entry \<in> set (parentIdById collection).
           snd entry < fst entry
           \<and> fst entry \<in> set (mapKeys (astNodeById collection))
                           \<union> set (mapKeys (contextNodeById collection))
           \<and> (fst entry \<in> set (mapKeys (contextNodeById collection))
                \<longrightarrow> snd entry \<in> set (mapKeys (contextNodeById collection))))
     \<and> (\<forall>entry \<in> set (childIdsById collection).
           fst entry \<in> set (mapKeys (astNodeById collection))
                         \<union> set (mapKeys (contextNodeById collection))
           \<and> (\<forall>c \<in> set (snd entry).
                 mapGet (parentIdById collection) c = Some (fst entry)))"

text \<open>
  A list of ids is deleted children first when each id, at its turn, has all the
  children it had in the given id map among the ids already gone.
\<close>

fun childrenFirst :: "Collection \<Rightarrow> nat set \<Rightarrow> nat list \<Rightarrow> bool" where
  "childrenFirst collection gone [] = True"
| "childrenFirst collection gone (n # ns) =
     (n \<notin> gone \<and> set (childIdsOf collection n) \<subseteq> gone
      \<and> childrenFirst collection (insert n gone) ns)"

text \<open>
  The state of the parser between two operations: its id map is well formed, every id
  is at least 1 and at most the id counter, a context is stored under its own id, and
  the current context is in the id map.
\<close>

definition consistent :: "IParserState \<Rightarrow> bool" where
  "consistent state \<longleftrightarrow>
     wellFormed (nodeIdMapCollection (contextState state))
     \<and> (\<forall>nodeId \<in> set (mapKeys (astNodeById (nodeIdMapCollection (contextState state))))
                     \<union> set (mapKeys (contextNodeById (nodeIdMapCollection (contextState state)))).
           0 < nodeId \<and> nodeId \<le> idCounter (contextState state))
     \<and> (\<forall>entry \<in> set (contextNodeById (nodeIdMapCollection (contextState state))).
           contextId (snd entry) = fst entry)
     \<and> (case maybeCurrentContextNode state of
           None \<Rightarrow> True
         | Some currentContextNode \<Rightarrow>
             contextId currentContextNode
               \<in> set (mapKeys (contextNodeById (nodeIdMapCollection (contextState state)))))"

text \<open>
  An id map that agrees with an earlier one on the ids up to a given one: the same AST
  nodes, the same open contexts, the same parents, and the same children among those
  ids, in the same order.
\<close>

definition unchangedUpTo :: "nat \<Rightarrow> Collection \<Rightarrow> Collection \<Rightarrow> bool" where
  "unchangedUpTo m earlier collection \<longleftrightarrow>
     (\<forall>k \<le> m. map_of (astNodeById collection) k = map_of (astNodeById earlier) k)
     \<and> (\<forall>k \<le> m. (k \<in> set (mapKeys (contextNodeById collection)))
                  = (k \<in> set (mapKeys (contextNodeById earlier))))
     \<and> (\<forall>k \<le> m. map_of (parentIdById collection) k = map_of (parentIdById earlier) k)
     \<and> (\<forall>k \<le> m. filter (\<lambda>c. c \<le> m) (childIdsOf collection k) = childIdsOf earlier k)"

text \<open>
  A state that extends an earlier one: it is consistent, its id counter is not less, and
  its id map is unchanged up to the id counter of the earlier state.
\<close>

definition extends :: "IParserState \<Rightarrow> IParserState \<Rightarrow> bool" where
  "extends earlier state \<longleftrightarrow>
     consistent state
     \<and> idCounter (contextState earlier) \<le> idCounter (contextState state)
     \<and> unchangedUpTo (idCounter (contextState earlier))
          (nodeIdMapCollection (contextState earlier))
          (nodeIdMapCollection (contextState state))"

text \<open>The id of the current context.\<close>

definition currentId :: "IParserState \<Rightarrow> nat option" where
  "currentId state = map_option contextId (maybeCurrentContextNode state)"

text \<open>
  What a run of reads leaves: a state that extends every state that the state before
  the run extends and, when nothing was thrown, the open contexts and the current
  context of the state before the run.
\<close>

definition nestedRun ::
  "IParserState \<Rightarrow> TInnerParseError Thrown option \<times> IParserState \<Rightarrow> bool" where
  "nestedRun state result \<longleftrightarrow>
     (\<forall>earlier. extends earlier state \<longrightarrow>
        extends earlier (snd result)
        \<and> (fst result = None \<longrightarrow>
             set (mapKeys (contextNodeById (nodeIdMapCollection (contextState (snd result)))))
               = set (mapKeys (contextNodeById (nodeIdMapCollection (contextState state))))
             \<and> currentId (snd result) = currentId state))"

text \<open>
  A speculative read that is rolled back, over two number tokens. Before the backup a
  logical expression is begun: its context has the id 1 and is the current one. The
  read then finishes a literal, the node 2, reading a token; it attempts a function
  expression, the context 3, which runs out of tokens and is rolled back; and it begins
  a constant, the context 3 again, in which it throws.
\<close>

definition twoNumbers :: LexerSnapshot where
  "twoNumbers = lexerSnapshot (stateOver [numberToken, numberToken] 0 None)"

definition unexpectedToken :: "TInnerParseError Thrown" where
  "unexpectedToken = ThrownInnerParse (OtherInnerParseError ''ExpectedTokenKindError'')"

definition astTwo :: AstNode where
  "astTwo = \<lparr>astId = 2, astKind = NodeKind_LiteralExpression,
     astMaybeAttributeIndex = Some 0, literal = ''1'',
     literalKind = Some LiteralKind_Numeric, constantKind = None\<rparr>"

definition readsBeforeBackup :: "Read list" where
  "readsBeforeBackup =
     [Production NodeKind_LogicalExpression [Throw unexpectedToken] DeleteContext]"

definition readsAfterBackup :: "Read list" where
  "readsAfterBackup =
     [Production NodeKind_LiteralExpression [ReadToken] (EndContext astTwo),
      Attempt [Production NodeKind_FunctionExpression [ReadToken, ReadToken] DeleteContext] [],
      Production NodeKind_Constant [Throw unexpectedToken] DeleteContext]"

definition contextOne :: ContextNode where
  "contextOne = \<lparr>contextId = 1, contextKind = NodeKind_LogicalExpression,
     contextMaybeAttributeIndex = None, attributeCounter = 0, maybeParentId = None\<rparr>"

definition contextThree :: ContextNode where
  "contextThree = \<lparr>contextId = 3, contextKind = NodeKind_Constant,
     contextMaybeAttributeIndex = Some 2, attributeCounter = 0, maybeParentId = Some 1\<rparr>"

text \<open>The values stored under a key of a map of lists, as a set.\<close>

definition valuesAt :: "('k \<times> 'v list) list \<Rightarrow> 'k \<Rightarrow> 'v set" where
  "valuesAt m k = (case map_of m k of None \<Rightarrow> {} | Some vs \<Rightarrow> set vs)"

section \<open>Properties of \<^verbatim>\<open>columnNumberFrom\<close>\<close>

lemma codeUnits_Nil [simp]: "codeUnits [] = 0"
  by (simp add: codeUnits_def)

lemma codeUnits_Cons [simp]: "codeUnits (g # gs) = length g + codeUnits gs"
  by (simp add: codeUnits_def)

lemma columnNumberLoop_found:
  "\<forall>g \<in> set gs. g \<noteq> [] \<Longrightarrow> k < length gs \<Longrightarrow>
   int (summed + codeUnits (take k gs)) = req \<Longrightarrow>
   columnNumberLoop gs req col summed = Inr (col + k)"
proof (induction gs arbitrary: k col summed)
  case Nil
  then show ?case by simp
next
  case (Cons g gs)
  show ?case
  proof (cases k)
    case 0
    with Cons.prems show ?thesis by simp
  next
    case (Suc k')
    from Cons.prems have "g \<noteq> []" by simp
    then have "0 < length g" by simp
    from Suc Cons.prems have "int (summed + (length g + codeUnits (take k' gs))) = req"
      by simp
    with \<open>0 < length g\<close> have ne: "int summed \<noteq> req" by linarith
    have "columnNumberLoop gs req (col + 1) (summed + length g) = Inr (col + 1 + k')"
      using Cons.prems Suc by (intro Cons.IH) (auto simp: add.assoc)
    with ne Suc show ?thesis by simp
  qed
qed

lemma columnNumberLoop_missing:
  "\<forall>k < length gs. int (summed + codeUnits (take k gs)) \<noteq> req \<Longrightarrow>
   columnNumberLoop gs req col summed =
     Inl (InvariantError ''no columnNumber can be generated for required codeUnit'')"
proof (induction gs arbitrary: col summed)
  case Nil
  then show ?case by simp
next
  case (Cons g gs)
  from Cons.prems have ne: "int summed \<noteq> req" by fastforce
  have "\<forall>k < length gs. int (summed + length g + codeUnits (take k gs)) \<noteq> req"
  proof (intro allI impI)
    fix k assume "k < length gs"
    then have "Suc k < length (g # gs)" by simp
    with Cons.prems have "int (summed + codeUnits (take (Suc k) (g # gs))) \<noteq> req" by blast
    then show "int (summed + length g + codeUnits (take k gs)) \<noteq> req"
      by (simp add: add.assoc)
  qed
  then have "columnNumberLoop gs req (col + 1) (summed + length g) =
     Inl (InvariantError ''no columnNumber can be generated for required codeUnit'')"
    by (rule Cons.IH)
  with ne show ?case by simp
qed

lemma codeUnits_take_less:
  "\<forall>g \<in> set gs. g \<noteq> [] \<Longrightarrow> k < length gs \<Longrightarrow> codeUnits (take k gs) < codeUnits gs"
proof (induction gs arbitrary: k)
  case Nil
  then show ?case by simp
next
  case (Cons g gs)
  then show ?case by (cases k) auto
qed

text \<open>
  Claim C10. For a splitter whose graphemes are never empty, \<open>columnNumberFrom\<close> returns
  the number \<open>k\<close> of graphemes of the strict prefix (\<open>k\<close> less than the number of
  graphemes) whose code units sum to \<open>requiredCodeUnit\<close>; it throws the
  \<open>InvariantError\<close> when no strict prefix has that sum; and it throws in particular when
  \<open>requiredCodeUnit\<close> is the code-unit length of the whole text, the boundary after the
  last grapheme never being tested.
\<close>

theorem columnNumberFrom_strict_prefix:
  assumes "\<forall>g \<in> set (splitGraphemes text). g \<noteq> []"
  shows "(k < length (splitGraphemes text) \<and>
            int (codeUnits (take k (splitGraphemes text))) = requiredCodeUnit
          \<longrightarrow> columnNumberFrom splitGraphemes text requiredCodeUnit = Inr k)
       \<and> ((\<forall>k < length (splitGraphemes text).
              int (codeUnits (take k (splitGraphemes text))) \<noteq> requiredCodeUnit)
          \<longrightarrow> columnNumberFrom splitGraphemes text requiredCodeUnit =
                Inl (InvariantError ''no columnNumber can be generated for required codeUnit''))
       \<and> (concat (splitGraphemes text) = text
          \<longrightarrow> columnNumberFrom splitGraphemes text (int (length text)) =
                Inl (InvariantError ''no columnNumber can be generated for required codeUnit''))"
proof (intro conjI impI)
  assume "k < length (splitGraphemes text) \<and>
          int (codeUnits (take k (splitGraphemes text))) = requiredCodeUnit"
  then show "columnNumberFrom splitGraphemes text requiredCodeUnit = Inr k"
    using columnNumberLoop_found [OF assms, of k 0 requiredCodeUnit 0]
    by (simp add: columnNumberFrom_def)
next
  assume "\<forall>k < length (splitGraphemes text).
            int (codeUnits (take k (splitGraphemes text))) \<noteq> requiredCodeUnit"
  then show "columnNumberFrom splitGraphemes text requiredCodeUnit =
     Inl (InvariantError ''no columnNumber can be generated for required codeUnit'')"
    using columnNumberLoop_missing [of "splitGraphemes text" 0 requiredCodeUnit 0]
    by (simp add: columnNumberFrom_def)
next
  assume whole: "concat (splitGraphemes text) = text"
  have "\<forall>k < length (splitGraphemes text).
          int (0 + codeUnits (take k (splitGraphemes text))) \<noteq> int (length text)"
  proof (intro allI impI)
    fix k assume "k < length (splitGraphemes text)"
    then have "codeUnits (take k (splitGraphemes text)) < codeUnits (splitGraphemes text)"
      using assms by (intro codeUnits_take_less)
    also have "codeUnits (splitGraphemes text) = length text"
      by (simp add: codeUnits_def whole)
    finally show "int (0 + codeUnits (take k (splitGraphemes text))) \<noteq> int (length text)"
      by simp
  qed
  then show "columnNumberFrom splitGraphemes text (int (length text)) =
     Inl (InvariantError ''no columnNumber can be generated for required codeUnit'')"
    unfolding columnNumberFrom_def by (rule columnNumberLoop_missing)
qed

theorem columnNumberFrom_strict_prefix_witness:
  "splitEach ''abc'' = [''a'', ''b'', ''c'']
   \<and> columnNumberFrom splitEach ''abc'' 2 = Inr 2
   \<and> columnNumberFrom splitEach ''abc'' (- 1) =
       Inl (InvariantError ''no columnNumber can be generated for required codeUnit'')
   \<and> columnNumberFrom splitEach ''abc'' 3 =
       Inl (InvariantError ''no columnNumber can be generated for required codeUnit'')"
proof -
  have h: "\<forall>g \<in> set (splitEach ''abc''). g \<noteq> []"
    by (simp add: splitEach_def)
  have len: "length (splitEach ''abc'') = 3"
    by (simp add: splitEach_def)
  have a: "columnNumberFrom splitEach ''abc'' 2 = Inr 2"
    using h columnNumberFrom_strict_prefix
            [of splitEach "''abc''" 2 2]
    by (simp add: splitEach_def codeUnits_def)
  have b: "columnNumberFrom splitEach ''abc'' (- 1) =
       Inl (InvariantError ''no columnNumber can be generated for required codeUnit'')"
    using h columnNumberFrom_strict_prefix
            [of splitEach "''abc''" 0 "- 1"]
    by simp
  have c: "columnNumberFrom splitEach ''abc'' 3 =
       Inl (InvariantError ''no columnNumber can be generated for required codeUnit'')"
    using h columnNumberFrom_strict_prefix
            [of splitEach "''abc''" 0 0]
    by (simp add: splitEach_def)
  have s: "splitEach ''abc'' = [''a'', ''b'', ''c'']"
    by (simp add: splitEach_def)
  from s a b c show ?thesis by (intro conjI)
qed

section \<open>Properties of the operator tables\<close>



lemma map_of_mapSet: "map_of (mapSet m k v) = (map_of m)(k \<mapsto> v)"
  by (induction m) auto

lemma map_fst_mapSet:
  "map fst (mapSet m k v) = (if k \<in> set (map fst m) then map fst m else map fst m @ [k])"
proof (induction m)
  case Nil
  then show ?case by simp
next
  case (Cons a m)
  obtain k' v' where a: "a = (k', v')" by (cases a)
  show ?case unfolding a using Cons.IH by (cases "k' = k") auto
qed

lemma keys_mapSet: "set (map fst (mapSet m k v)) = insert k (set (map fst m))"
  by (simp add: map_fst_mapSet insert_absorb)

lemma distinct_mapSet: "distinct (map fst m) \<Longrightarrow> distinct (map fst (mapSet m k v))"
  by (simp add: map_fst_mapSet)

lemma foldl_mapSet_keys:
  "set (map fst (foldl (\<lambda>m (k, v). mapSet m k v) m es)) = set (map fst m) \<union> set (map fst es)"
proof (induction es arbitrary: m)
  case Nil
  then show ?case by simp
next
  case (Cons e es)
  obtain k v where e: "e = (k, v)" by (cases e)
  show ?case
    unfolding e using Cons.IH [of "mapSet m k v"] keys_mapSet [of m k v] by simp
qed

lemma foldl_mapSet_distinct:
  "distinct (map fst m) \<Longrightarrow> distinct (map fst (foldl (\<lambda>m (k, v). mapSet m k v) m es))"
proof (induction es arbitrary: m)
  case Nil
  then show ?case by simp
next
  case (Cons e es)
  obtain k v where e: "e = (k, v)" by (cases e)
  show ?case
    unfolding e using Cons.IH [of "mapSet m k v"] Cons.prems distinct_mapSet [of m k v] by simp
qed

lemma foldl_mapSet_map_of:
  "distinct (map fst es) \<Longrightarrow> (\<forall>k \<in> set (map fst es). map_of m k = None) \<Longrightarrow>
   map_of (foldl (\<lambda>m (k, v). mapSet m k v) m es) = map_of m ++ map_of es"
proof (induction es arbitrary: m)
  case Nil
  then show ?case by simp
next
  case (Cons e es)
  obtain k v where e: "e = (k, v)" by (cases e)
  from Cons.prems e have notin: "k \<notin> set (map fst es)" by auto
  then have none: "map_of es k = None"
    by (simp add: map_of_eq_None_iff)
  have step: "foldl (\<lambda>m (k, v). mapSet m k v) m (e # es)
                = foldl (\<lambda>m (k, v). mapSet m k v) (mapSet m k v) es"
    by (simp add: e)
  have ih: "map_of (foldl (\<lambda>m (k, v). mapSet m k v) (mapSet m k v) es)
          = map_of (mapSet m k v) ++ map_of es"
    using Cons.prems e notin by (intro Cons.IH) (auto simp: map_of_mapSet)
  have eq: "map_of (mapSet m k v) ++ map_of es = map_of m ++ map_of (e # es)"
  proof (rule ext)
    fix x
    show "(map_of (mapSet m k v) ++ map_of es) x = (map_of m ++ map_of (e # es)) x"
      using none by (simp add: e map_of_mapSet map_add_def split: option.splits)
  qed
  show ?case by (simp only: step ih eq)
qed

lemma keys_newMap: "set (mapKeys (newMap es)) = set (map fst es)"
  using foldl_mapSet_keys [of "[]" es] by (simp add: newMap_def mapKeys_def)

lemma mapGet_newMap_distinct: "distinct (map fst es) \<Longrightarrow> mapGet (newMap es) k = map_of es k"
  using foldl_mapSet_map_of [of es "[]"] by (simp add: newMap_def mapGet_def)

lemma valuesAt_reducer:
  "valuesAt (partialLookupReducer m key) pk =
     valuesAt m pk \<union> (if partialKeyOf key = pk then {potentialNewValueOf key} else {})"
  by (auto simp: valuesAt_def partialLookupReducer_def mapGet_def map_of_mapSet setAdd_def Let_def
           split: option.splits if_splits)

lemma dom_reducer:
  "dom (map_of (partialLookupReducer m key)) = insert (partialKeyOf key) (dom (map_of m))"
  by (auto simp: partialLookupReducer_def mapGet_def map_of_mapSet Let_def split: option.splits)

lemma distinct_reducer:
  "distinct (map fst m) \<Longrightarrow> distinct (map fst (partialLookupReducer m key))"
  by (auto simp: partialLookupReducer_def Let_def distinct_mapSet split: option.splits)

lemma valuesAt_foldl:
  "valuesAt (foldl partialLookupReducer m keys) pk =
     valuesAt m pk \<union> {potentialNewValueOf key | key. key \<in> set keys \<and> partialKeyOf key = pk}"
  by (induction keys arbitrary: m) (auto simp: valuesAt_reducer)

lemma dom_foldl:
  "dom (map_of (foldl partialLookupReducer m keys)) = dom (map_of m) \<union> partialKeyOf ` set keys"
  by (induction keys arbitrary: m) (auto simp: dom_reducer)

lemma distinct_foldl:
  "distinct (map fst m) \<Longrightarrow> distinct (map fst (foldl partialLookupReducer m keys))"
  by (induction keys arbitrary: m) (auto simp: distinct_reducer)

lemma lastIndexOf_None: "c \<notin> set s \<Longrightarrow> lastIndexOf s c = None"
  by (induction s) auto

lemma lastIndexOf_last: "c \<notin> set r \<Longrightarrow> lastIndexOf (p @ c # r) c = Some (length p)"
  by (induction p) (auto simp: lastIndexOf_None)

lemma lastIndexOf_split:
  "lastIndexOf s c = Some i \<Longrightarrow> s = take i s @ c # drop (Suc i) s \<and> c \<notin> set (drop (Suc i) s)"
proof (induction s arbitrary: i)
  case Nil
  then show ?case by simp
next
  case (Cons x s)
  show ?case
  proof (cases "lastIndexOf s c")
    case None
    with Cons.prems have "x = c" "i = 0" by (auto split: if_splits)
    moreover have "c \<notin> set s"
    proof
      assume "c \<in> set s"
      then obtain p r where "s = p @ c # r" "c \<notin> set r"
        by (meson split_list_last)
      with None show False by (simp add: lastIndexOf_last)
    qed
    ultimately show ?thesis by simp
  next
    case (Some j)
    with Cons.prems have "i = Suc j" by simp
    with Cons.IH [OF Some] show ?thesis by simp
  qed
qed

lemma lastIndexOf_Some: "c \<in> set s \<Longrightarrow> \<exists>i. lastIndexOf s c = Some i"
proof -
  assume "c \<in> set s"
  then obtain p r where "s = p @ c # r" "c \<notin> set r"
    by (meson split_list_last)
  then show ?thesis by (auto simp: lastIndexOf_last)
qed


lemmas lookup_defs = LookupEntries_def createLookupsForRelational_def
  createLookupsForEquality_def createLookupsForArithmetic_def createLookupsForLogical_def
  createLookupsForClockKind_def lookupKey_def

lemma Lookup_keys: "set (mapKeys Lookup) = set (map fst LookupEntries)"
  unfolding Lookup_def by (rule keys_newMap)

lemma Lookup_keys_two_commas:
  "\<forall>key \<in> set (mapKeys Lookup). length (filter (\<lambda>c. c = CHR '','') key) = 2"
  unfolding Lookup_keys by (simp add: lookup_defs)

lemma map_of_reducer:
  "map_of (partialLookupReducer m key) pk =
     (if partialKeyOf key = pk then valuesFrom (map_of m pk) [potentialNewValueOf key]
      else map_of m pk)"
  by (auto simp: partialLookupReducer_def mapGet_def map_of_mapSet Let_def
           split: option.splits)

lemma valuesFrom_snoc:
  "valuesFrom (valuesFrom s [v]) vs = valuesFrom s (v # vs)"
  by (cases s) auto

lemma map_of_foldl_reducer:
  "map_of (foldl partialLookupReducer m keys) pk =
     valuesFrom (map_of m pk) (map potentialNewValueOf (filter (\<lambda>k. partialKeyOf k = pk) keys))"
proof (induction keys arbitrary: m)
  case Nil
  then show ?case by (cases "map_of m pk") auto
next
  case (Cons key keys)
  show ?case
    by (simp add: Cons.IH map_of_reducer valuesFrom_snoc)
qed

lemma set_foldl_setAdd: "set (foldl setAdd s xs) = set s \<union> set xs"
  by (induction xs arbitrary: s) (auto simp: setAdd_def)

lemma foldl_setAdd_duplicate:
  "v \<in> set t \<union> set as \<Longrightarrow> foldl setAdd t (as @ v # bs) = foldl setAdd t (as @ bs)"
  by (simp add: set_foldl_setAdd setAdd_def)

lemma foldl_setAdd_dedupe:
  "foldl setAdd t (map g (filter P (foldl setAdd s xs))) =
   foldl setAdd t (map g (filter P (s @ xs)))"
proof (induction xs arbitrary: s)
  case Nil
  then show ?case by simp
next
  case (Cons x xs)
  show ?case
  proof (cases "x \<in> set s")
    case True
    then have "foldl setAdd s (x # xs) = foldl setAdd s xs"
      by (simp add: setAdd_def)
    moreover have "foldl setAdd t (map g (filter P (s @ x # xs))) =
                   foldl setAdd t (map g (filter P (s @ xs)))"
    proof (cases "P x")
      case True
      with \<open>x \<in> set s\<close> have "g x \<in> set t \<union> set (map g (filter P s))" by auto
      from foldl_setAdd_duplicate [OF this, of "map g (filter P xs)"] True
      show ?thesis by simp
    next
      case False
      then show ?thesis by simp
    qed
    ultimately show ?thesis using Cons.IH [of s] by simp
  next
    case False
    then have "foldl setAdd s (x # xs) = foldl setAdd (s @ [x]) xs"
      by (simp add: setAdd_def)
    then show ?thesis using Cons.IH [of "s @ [x]"] by simp
  qed
qed

lemma mapKeys_newMap: "mapKeys (newMap es) = foldl setAdd [] (map fst es)"
proof -
  have "map fst (foldl (\<lambda>m (k, v). mapSet m k v) m es) = foldl setAdd (map fst m) (map fst es)"
    for m :: "('a \<times> 'b) list"
  proof (induction es arbitrary: m)
    case Nil
    then show ?case by simp
  next
    case (Cons e es)
    obtain k v where e: "e = (k, v)" by (cases e)
    show ?case
      unfolding e using Cons.IH [of "mapSet m k v"]
      by (simp add: map_fst_mapSet setAdd_def)
  qed
  from this [of "[]"] show ?thesis by (simp add: newMap_def mapKeys_def)
qed

lemma valuesFrom_None_dedupe:
  "valuesFrom None (map g (filter P (foldl setAdd [] xs))) = valuesFrom None (map g (filter P xs))"
proof -
  have eq: "foldl setAdd [] (map g (filter P (foldl setAdd [] xs))) =
            foldl setAdd [] (map g (filter P xs))"
    using foldl_setAdd_dedupe [of "[]" g P "[]" xs] by simp
  have v: "valuesFrom None ys = (if ys = [] then None else Some (foldl setAdd [] ys))"
    for ys :: "'c list"
    by (cases ys) (auto simp: setAdd_def)
  have "(map g (filter P (foldl setAdd [] xs)) = []) = (map g (filter P xs) = [])"
    by (auto simp: filter_empty_conv set_foldl_setAdd)
  with eq show ?thesis by (simp add: v)
qed

lemma PartialLookup_get:
  "mapGet PartialLookup pk =
     valuesFrom None
       (map potentialNewValueOf (filter (\<lambda>k. partialKeyOf k = pk) (map fst LookupEntries)))"
proof -
  have "mapGet PartialLookup pk = map_of (foldl partialLookupReducer [] (mapKeys Lookup)) pk"
    unfolding PartialLookup_def
    by (rule mapGet_newMap_distinct) (simp add: distinct_foldl)
  then show ?thesis
    by (simp add: map_of_foldl_reducer Lookup_def mapKeys_newMap valuesFrom_None_dedupe)
qed

lemma PartialLookup_Number_Addition:
  "mapGet PartialLookup (partialLookupKey TypeKind_Number ArithmeticOperatorKind_Addition) =
     Some [TypeKind_Number]"
  by (simp add: PartialLookup_get lookup_defs partialLookupKey_def partialKeyOf_def
        potentialNewValueOf_def setAdd_def)

lemma PartialLookup_Time_Subtraction:
  "mapGet PartialLookup (partialLookupKey TypeKind_Time ArithmeticOperatorKind_Subtraction) =
     Some [TypeKind_Duration, TypeKind_Time]"
  by (simp add: PartialLookup_get lookup_defs partialLookupKey_def partialKeyOf_def
        potentialNewValueOf_def setAdd_def)

lemma mapGet_PartialLookup:
  "mapGet PartialLookup pk = map_of (foldl partialLookupReducer [] (mapKeys Lookup)) pk"
  unfolding PartialLookup_def
  by (rule mapGet_newMap_distinct) (simp add: distinct_foldl)

lemma valuesAt_PartialLookup:
  "(case mapGet PartialLookup pk of None \<Rightarrow> {} | Some vs \<Rightarrow> set vs) =
     {potentialNewValueOf key | key. key \<in> set (mapKeys Lookup) \<and> partialKeyOf key = pk}"
  using valuesAt_foldl [of "[]" "mapKeys Lookup" pk]
  by (simp add: mapGet_PartialLookup valuesAt_def)

lemma dom_PartialLookup:
  "(mapGet PartialLookup pk \<noteq> None) = (pk \<in> partialKeyOf ` set (mapKeys Lookup))"
  using dom_foldl [of "[]" "mapKeys Lookup"]
  by (auto simp: mapGet_PartialLookup dom_def)

lemma key_last_component:
  assumes "CHR '','' \<notin> set r"
  shows "partialKeyOf (pk @ '','' @ r) = pk" and "potentialNewValueOf (pk @ '','' @ r) = r"
  using lastIndexOf_last [OF assms, of pk]
  by (simp_all add: partialKeyOf_def potentialNewValueOf_def)

lemma Lookup_key_split:
  assumes "key \<in> set (mapKeys Lookup)"
  shows "key = partialKeyOf key @ '','' @ potentialNewValueOf key
         \<and> CHR '','' \<notin> set (potentialNewValueOf key)"
proof -
  from assms Lookup_keys_two_commas
  have "length (filter (\<lambda>c. c = CHR '','') key) = 2" by blast
  then have "filter (\<lambda>c. c = CHR '','') key \<noteq> []" by auto
  then have "CHR '','' \<in> set key"
    by (auto simp: filter_empty_conv)
  then obtain i where i: "lastIndexOf key (CHR '','') = Some i"
    using lastIndexOf_Some by fastforce
  from lastIndexOf_split [OF i] show ?thesis
    by (simp add: partialKeyOf_def potentialNewValueOf_def i)
qed

lemma lookupKey_last_component:
  assumes "lookupKey l operatorKind r \<in> set (mapKeys Lookup)"
  shows "CHR '','' \<notin> set r"
proof
  assume "CHR '','' \<in> set r"
  then have "filter (\<lambda>c. c = CHR '','') r \<noteq> []"
    by (auto simp: filter_empty_conv)
  then have "0 < length (filter (\<lambda>c. c = CHR '','') r)" by simp
  then have "2 < length (filter (\<lambda>c. c = CHR '','') (lookupKey l operatorKind r))"
    by (simp add: lookupKey_def)
  with assms Lookup_keys_two_commas show False by fastforce
qed

text \<open>
  Claim C6. Every key \<open>leftKind,opKind,rightKind\<close> of the full table has its prefix
  \<open>leftKind,opKind\<close> as a key of \<^verbatim>\<open>PartialLookup\<close>, with \<open>rightKind\<close> among the
  values; and the values under a key of \<^verbatim>\<open>PartialLookup\<close> are exactly the last
  components (the part after the last comma) of the full keys that extend it.
\<close>

theorem PartialLookup_index:
  "(\<forall>l operatorKind r. lookupKey l operatorKind r \<in> set (mapKeys Lookup) \<longrightarrow>
      (\<exists>vs. mapGet PartialLookup (partialLookupKey l operatorKind) = Some vs \<and> r \<in> set vs))
   \<and> (\<forall>pk vs. mapGet PartialLookup pk = Some vs \<longrightarrow>
        set vs = {r. CHR '','' \<notin> set r \<and> pk @ '','' @ r \<in> set (mapKeys Lookup)})"
proof (intro conjI allI impI)
  fix l operatorKind r
  assume key: "lookupKey l operatorKind r \<in> set (mapKeys Lookup)"
  have r: "CHR '','' \<notin> set r"
    using key by (rule lookupKey_last_component)
  have form: "lookupKey l operatorKind r = partialLookupKey l operatorKind @ '','' @ r"
    by (simp add: lookupKey_def partialLookupKey_def)
  have "r \<in> {potentialNewValueOf key | key. key \<in> set (mapKeys Lookup)
                 \<and> partialKeyOf key = partialLookupKey l operatorKind}"
    using key key_last_component [OF r, of "partialLookupKey l operatorKind"]
    unfolding form by force
  then have "r \<in> (case mapGet PartialLookup (partialLookupKey l operatorKind) of
                    None \<Rightarrow> {} | Some vs \<Rightarrow> set vs)"
    by (simp only: valuesAt_PartialLookup)
  then show "\<exists>vs. mapGet PartialLookup (partialLookupKey l operatorKind) = Some vs \<and> r \<in> set vs"
    by (cases "mapGet PartialLookup (partialLookupKey l operatorKind)") auto
next
  fix pk vs
  assume "mapGet PartialLookup pk = Some vs"
  then have vs: "set vs = {potentialNewValueOf key | key. key \<in> set (mapKeys Lookup)
                             \<and> partialKeyOf key = pk}"
    using valuesAt_PartialLookup [of pk] by simp
  show "set vs = {r. CHR '','' \<notin> set r \<and> pk @ '','' @ r \<in> set (mapKeys Lookup)}"
  proof (intro set_eqI iffI)
    fix r assume "r \<in> set vs"
    with vs obtain key where key: "key \<in> set (mapKeys Lookup)" "partialKeyOf key = pk"
      "r = potentialNewValueOf key" by auto
    from Lookup_key_split [OF key(1)] key(2,3) key(1)
    show "r \<in> {r. CHR '','' \<notin> set r \<and> pk @ '','' @ r \<in> set (mapKeys Lookup)}"
      by simp
  next
    fix r assume "r \<in> {r. CHR '','' \<notin> set r \<and> pk @ '','' @ r \<in> set (mapKeys Lookup)}"
    then have r: "CHR '','' \<notin> set r" and key: "pk @ '','' @ r \<in> set (mapKeys Lookup)"
      by simp_all
    from key key_last_component [OF r, of pk] show "r \<in> set vs"
      unfolding vs by force
  qed
qed

theorem PartialLookup_index_witness:
  "lookupKey TypeKind_Time ArithmeticOperatorKind_Subtraction TypeKind_Duration
     \<in> set (mapKeys Lookup)
   \<and> (\<exists>vs. mapGet PartialLookup
              (partialLookupKey TypeKind_Time ArithmeticOperatorKind_Subtraction) = Some vs
          \<and> TypeKind_Duration \<in> set vs)
   \<and> mapGet PartialLookup (partialLookupKey TypeKind_Time ArithmeticOperatorKind_Subtraction)
        = Some [TypeKind_Duration, TypeKind_Time]
   \<and> {TypeKind_Duration, TypeKind_Time} =
       {r. CHR '','' \<notin> set r
           \<and> partialLookupKey TypeKind_Time ArithmeticOperatorKind_Subtraction @ '','' @ r
                \<in> set (mapKeys Lookup)}"
proof -
  have key: "lookupKey TypeKind_Time ArithmeticOperatorKind_Subtraction TypeKind_Duration
     \<in> set (mapKeys Lookup)"
    unfolding Lookup_keys by (simp add: lookup_defs)
  note get = PartialLookup_Time_Subtraction
  have a: "\<exists>vs. mapGet PartialLookup
              (partialLookupKey TypeKind_Time ArithmeticOperatorKind_Subtraction) = Some vs
          \<and> TypeKind_Duration \<in> set vs"
    by (rule PartialLookup_index [THEN conjunct1, rule_format, OF key])
  have b: "set [TypeKind_Duration, TypeKind_Time] =
       {r. CHR '','' \<notin> set r
           \<and> partialLookupKey TypeKind_Time ArithmeticOperatorKind_Subtraction @ '','' @ r
                \<in> set (mapKeys Lookup)}"
    by (rule PartialLookup_index [THEN conjunct2, rule_format, OF get])
  from b have c: "{TypeKind_Duration, TypeKind_Time} =
       {r. CHR '','' \<notin> set r
           \<and> partialLookupKey TypeKind_Time ArithmeticOperatorKind_Subtraction @ '','' @ r
                \<in> set (mapKeys Lookup)}"
    by (simp only: list.simps(15) empty_set)
  from key a get c show ?thesis by (intro conjI)
qed

section \<open>Properties of binary-operator type inference\<close>

lemma at_1 [simp]: "at xs 1 = at xs (Suc 0)"
  by simp

lemma at_2 [simp]: "at xs 2 = at xs (Suc (Suc 0))"
  by (simp add: numeral_2_eq_2)



lemma map_of_foldl_mapSet_mem:
  "map_of (foldl (\<lambda>m (k, v). mapSet m k v) m es) k = Some v \<Longrightarrow>
   map_of m k = Some v \<or> (k, v) \<in> set es"
proof (induction es arbitrary: m)
  case Nil
  then show ?case by simp
next
  case (Cons e es)
  obtain k' v' where e: "e = (k', v')" by (cases e)
  from Cons.prems have "map_of (foldl (\<lambda>m (k, v). mapSet m k v) (mapSet m k' v') es) k = Some v"
    by (simp add: e)
  from Cons.IH [OF this] show ?case
    by (auto simp: e map_of_mapSet split: if_splits)
qed

lemma mapGet_Lookup_entry: "mapGet Lookup key = Some k \<Longrightarrow> (key, k) \<in> set LookupEntries"
  using map_of_foldl_mapSet_mem [of "[]" LookupEntries key k]
  by (simp add: Lookup_def newMap_def mapGet_def)

lemma Lookup_Record_Table_entry:
  assumes "(key, k) \<in> set LookupEntries" and "k = TypeKind_Record \<or> k = TypeKind_Table"
  shows "key = lookupKey k ArithmeticOperatorKind_And k"
  using assms by (auto simp: lookup_defs)

lemma lookupKey_And_inject:
  assumes "lookupKey l ArithmeticOperatorKind_And r = lookupKey k ArithmeticOperatorKind_And k"
    and "CHR '','' \<notin> set k"
  shows "l = k \<and> r = k"
proof -
  from assms(2) have "filter (\<lambda>c. c = CHR '','') k = []"
    by (auto simp: filter_empty_conv)
  then have "length (filter (\<lambda>c. c = CHR '','') (lookupKey l ArithmeticOperatorKind_And r)) = 2"
    unfolding assms(1) by (simp add: lookupKey_def)
  then have "filter (\<lambda>c. c = CHR '','') r = []"
    by (simp add: lookupKey_def)
  then have r: "CHR '','' \<notin> set r"
    by (auto simp: filter_empty_conv)
  have "potentialNewValueOf ((l @ '',&'') @ '','' @ r) = potentialNewValueOf ((k @ '',&'') @ '','' @ k)"
    using assms(1) by (simp add: lookupKey_def)
  then have rk: "r = k"
    using key_last_component(2) [OF r, of "l @ '',&''"] key_last_component(2) [OF assms(2), of "k @ '',&''"]
    by simp
  have "partialKeyOf ((l @ '',&'') @ '','' @ r) = partialKeyOf ((k @ '',&'') @ '','' @ k)"
    using assms(1) by (simp add: lookupKey_def)
  then have "l @ '',&'' = k @ '',&''"
    using key_last_component(1) [OF r, of "l @ '',&''"] key_last_component(1) [OF assms(2), of "k @ '',&''"]
    by simp
  with rk show ?thesis by simp
qed

lemma Lookup_And_Record_Table:
  assumes "mapGet Lookup (lookupKey l ArithmeticOperatorKind_And r) = Some k"
    and "k = TypeKind_Record \<or> k = TypeKind_Table"
  shows "l = k \<and> r = k"
proof -
  from assms(1) have "(lookupKey l ArithmeticOperatorKind_And r, k) \<in> set LookupEntries"
    by (rule mapGet_Lookup_entry)
  from Lookup_Record_Table_entry [OF this assms(2)]
  have "lookupKey l ArithmeticOperatorKind_And r = lookupKey k ArithmeticOperatorKind_And k" .
  moreover from assms(2) have "CHR '','' \<notin> set k" by auto
  ultimately show ?thesis by (rule lookupKey_And_inject)
qed

lemma map_of_unionFields:
  "map_of (TType.fields (unionFields leftType rightType)) =
     map_of (TType.fields leftType) ++ map_of (rev (TType.fields rightType))"
proof -
  have "map_of (foldl (\<lambda>m (k, v). mapSet m k v) m es) = map_of m ++ map_of (rev es)"
    for m es :: "(string \<times> TType) list"
  proof (induction es arbitrary: m)
    case Nil
    then show ?case by simp
  next
    case (Cons e es)
    obtain k v where e: "e = (k, v)" by (cases e)
    have "map_of (mapSet m k v) ++ map_of (rev es) = map_of m ++ map_of (rev es @ [(k, v)])"
      by (rule ext) (simp add: map_of_mapSet map_add_def split: option.splits)
    then show ?case by (simp add: e Cons.IH)
  qed
  then show ?thesis by (simp add: unionFields_def Let_def)
qed


lemma inspectTypeTBinOpExpression_no_right:
  assumes "maybeCancellationToken state \<noteq> Some True"
    and "isTBinOpExpressionKind state (xorNodeKind xorNode)"
    and "assertIterChildrenXor state (xorNodeId xorNode) = Inr children"
    and "at children 0 = Some left"
    and "at children 1 = Some (XorAst operator)"
    and "constantKind operator = Some operatorKind"
    and "case at children 2 of None \<Rightarrow> True | Some right \<Rightarrow> isXorContext right"
  shows "inspectTypeTBinOpExpression state xorNode = inspectPartialBinOp state left operatorKind"
  using assms
  by (simp add: inspectTypeTBinOpExpression_def Let_def split: option.splits)

lemma inspectTypeTBinOpExpression_with_right:
  assumes "maybeCancellationToken state \<noteq> Some True"
    and "isTBinOpExpressionKind state (xorNodeKind xorNode)"
    and "assertIterChildrenXor state (xorNodeId xorNode) = Inr children"
    and "at children 0 = Some left"
    and "at children 1 = Some (XorAst operator)"
    and "constantKind operator = Some operatorKind"
    and "at children 2 = Some right" and "\<not> isXorContext right"
  shows "inspectTypeTBinOpExpression state xorNode = inspectFullBinOp state left operatorKind right"
  using assms
  by (simp add: inspectTypeTBinOpExpression_def Let_def)


text \<open>
  Claim C3. For a binary-operator node whose left operand exists, whose operator is a
  finished constant and whose right operand is absent or still a context (the token not
  cancelled, the children and the type of the left operand obtained without a fault):
  a partial lookup that yields the one kind \<open>k\<close> gives the primitive type of kind \<open>k\<close>
  with the nullability of the left type; a partial lookup that yields two or more kinds
  gives the union built from one member per kind, each nullable and not extended.
\<close>

theorem inspectTypeTBinOpExpression_partial_lookup:
  assumes "maybeCancellationToken state \<noteq> Some True"
    and "isTBinOpExpressionKind state (xorNodeKind xorNode)"
    and "assertIterChildrenXor state (xorNodeId xorNode) = Inr children"
    and "at children 0 = Some left"
    and "at children 1 = Some (XorAst operator)"
    and "constantKind operator = Some operatorKind"
    and "case at children 2 of None \<Rightarrow> True | Some right \<Rightarrow> isXorContext right"
    and "inspectXor state left = Inr leftType"
  shows "(mapGet PartialLookup (partialLookupKey (kind leftType) operatorKind) = Some [k]
          \<longrightarrow> inspectTypeTBinOpExpression state xorNode =
                Inr (primitiveTypeFactory (isNullable leftType) k))
       \<and> (mapGet PartialLookup (partialLookupKey (kind leftType) operatorKind) = Some ks
            \<and> 2 \<le> length ks
          \<longrightarrow> (\<exists>members.
                 inspectTypeTBinOpExpression state xorNode = Inr (anyUnionFactory state members)
                 \<and> map kind members = ks
                 \<and> (\<forall>m \<in> set members. isNullable m \<and> maybeExtendedKind m = None)))"
proof (intro conjI impI)
  assume "mapGet PartialLookup (partialLookupKey (kind leftType) operatorKind) = Some [k]"
  then show "inspectTypeTBinOpExpression state xorNode =
               Inr (primitiveTypeFactory (isNullable leftType) k)"
    using assms(8)
    by (simp add: inspectTypeTBinOpExpression_no_right [OF assms(1-7)] inspectPartialBinOp_def)
next
  assume multi: "mapGet PartialLookup (partialLookupKey (kind leftType) operatorKind) = Some ks
                 \<and> 2 \<le> length ks"
  let ?members = "map (\<lambda>k. TType k None True [] False []) ks"
  from multi have "\<not> (\<exists>only. ks = [only])" by auto
  then have "(case ks of [only] \<Rightarrow> Inr (primitiveTypeFactory (isNullable leftType) only)
              | _ \<Rightarrow> Inr (anyUnionFactory state ?members))
             = (Inr (anyUnionFactory state ?members) :: 'a Thrown + TType)"
    by (auto split: list.splits)
  with multi assms(8)
  have "inspectTypeTBinOpExpression state xorNode = Inr (anyUnionFactory state ?members)"
    by (simp add: inspectTypeTBinOpExpression_no_right [OF assms(1-7)] inspectPartialBinOp_def)
  moreover have "map kind ?members = ks"
    by (simp add: comp_def)
  moreover have "\<forall>m \<in> set ?members. isNullable m \<and> maybeExtendedKind m = None"
    by auto
  ultimately show "\<exists>members.
       inspectTypeTBinOpExpression state xorNode = Inr (anyUnionFactory state members)
       \<and> map kind members = ks
       \<and> (\<forall>m \<in> set members. isNullable m \<and> maybeExtendedKind m = None)"
    by blast
qed

theorem inspectTypeTBinOpExpression_partial_lookup_witness:
  "inspectTypeTBinOpExpression onePlusState (XorContext openSum) =
     Inr (primitiveTypeFactory False TypeKind_Number)
   \<and> (\<exists>members.
        inspectTypeTBinOpExpression timeMinusState (XorContext openSum) = Inr (anyUnionOf members)
        \<and> map kind members = [TypeKind_Duration, TypeKind_Time]
        \<and> (\<forall>m \<in> set members. isNullable m \<and> maybeExtendedKind m = None))"
proof -
  have one: "inspectXor onePlusState (XorAst literalOne) =
               Inr (primitiveTypeFactory False TypeKind_Number)"
    by (simp add: onePlusState_def literalOne_def)
  have a: "inspectTypeTBinOpExpression onePlusState (XorContext openSum) =
     Inr (primitiveTypeFactory False TypeKind_Number)"
    using inspectTypeTBinOpExpression_partial_lookup
            [of onePlusState "XorContext openSum"
                "[XorAst literalOne, XorAst constantPlus, XorContext openRightOperand]"
                "XorAst literalOne" constantPlus ArithmeticOperatorKind_Addition
                "primitiveTypeFactory False TypeKind_Number" TypeKind_Number]
          PartialLookup_Number_Addition one
    by (simp add: onePlusState_def openSum_def constantPlus_def primitiveTypeFactory_def)
  have b: "\<exists>members.
        inspectTypeTBinOpExpression timeMinusState (XorContext openSum) =
          Inr (anyUnionFactory timeMinusState members)
        \<and> map kind members = [TypeKind_Duration, TypeKind_Time]
        \<and> (\<forall>m \<in> set members. isNullable m \<and> maybeExtendedKind m = None)"
    using inspectTypeTBinOpExpression_partial_lookup
            [of timeMinusState "XorContext openSum"
                "[XorAst literalOne, XorAst constantMinus]"
                "XorAst literalOne" constantMinus ArithmeticOperatorKind_Subtraction
                "primitiveTypeFactory False TypeKind_Time" _
                "[TypeKind_Duration, TypeKind_Time]"]
          PartialLookup_Time_Subtraction
    by (simp add: timeMinusState_def openSum_def constantMinus_def primitiveTypeFactory_def)
  have "anyUnionFactory timeMinusState = anyUnionOf"
    by (simp add: timeMinusState_def)
  with a b show ?thesis by simp
qed

text \<open>
  Claim C4, as stated, fails: with the literal \<open>1\<close> typed as the non-nullable \<open>Number\<close>,
  the type inferred for the partially parsed \<^verbatim>\<open>1 +\<close> is not the nullable \<open>Number\<close>.
\<close>

theorem one_plus_not_nullable:
  "inspectTypeTBinOpExpression onePlusState (XorContext openSum)
     \<noteq> Inr (primitiveTypeFactory True TypeKind_Number)"
proof -
  have "inspectTypeTBinOpExpression onePlusState (XorContext openSum) =
          inspectPartialBinOp onePlusState (XorAst literalOne) ArithmeticOperatorKind_Addition"
    by (rule inspectTypeTBinOpExpression_no_right
               [where children = "[XorAst literalOne, XorAst constantPlus,
                                   XorContext openRightOperand]"
                  and operator = constantPlus])
       (simp_all add: onePlusState_def openSum_def constantPlus_def)
  also have "\<dots> = Inr (primitiveTypeFactory False TypeKind_Number)"
    using PartialLookup_Number_Addition
    by (simp add: inspectPartialBinOp_def onePlusState_def literalOne_def
          primitiveTypeFactory_def)
  finally show ?thesis by (simp add: primitiveTypeFactory_def)
qed

text \<open>
  Claim C4, amended. For the partially parsed \<^verbatim>\<open>1 +\<close> (a left operand typed with kind
  \<open>Number\<close>, the finished constant \<open>+\<close>, the right operand absent or still a context),
  the inferred type is the primitive \<open>Number\<close>, by the singleton partial lookup on
  \<open>(Number, +)\<close>, with the nullability of the left operand's type: not nullable for a
  literal typed as the non-nullable \<open>Number\<close>.
\<close>

theorem one_plus_type:
  assumes "maybeCancellationToken state \<noteq> Some True"
    and "isTBinOpExpressionKind state (xorNodeKind xorNode)"
    and "assertIterChildrenXor state (xorNodeId xorNode) = Inr children"
    and "at children 0 = Some left"
    and "at children 1 = Some (XorAst operator)"
    and "constantKind operator = Some ArithmeticOperatorKind_Addition"
    and "case at children 2 of None \<Rightarrow> True | Some right \<Rightarrow> isXorContext right"
    and "inspectXor state left = Inr leftType"
    and "kind leftType = TypeKind_Number"
  shows "mapGet PartialLookup (partialLookupKey TypeKind_Number ArithmeticOperatorKind_Addition)
           = Some [TypeKind_Number]
       \<and> inspectTypeTBinOpExpression state xorNode =
           Inr (primitiveTypeFactory (isNullable leftType) TypeKind_Number)"
  using assms(8,9) PartialLookup_Number_Addition
  by (simp add: inspectTypeTBinOpExpression_no_right [OF assms(1-7)] inspectPartialBinOp_def)

theorem one_plus_type_witness:
  "inspectTypeTBinOpExpression onePlusState (XorContext openSum) =
     Inr (primitiveTypeFactory False TypeKind_Number)"
proof -
  have "inspectXor onePlusState (XorAst literalOne) =
          Inr (primitiveTypeFactory False TypeKind_Number)"
    by (simp add: onePlusState_def literalOne_def)
  then show ?thesis
    using one_plus_type
            [of onePlusState "XorContext openSum"
                "[XorAst literalOne, XorAst constantPlus, XorContext openRightOperand]"
                "XorAst literalOne" constantPlus
                "primitiveTypeFactory False TypeKind_Number"]
    by (simp add: onePlusState_def openSum_def constantPlus_def primitiveTypeFactory_def)
qed


text \<open>
  Claim C5. When \<^verbatim>\<open>&\<close> joins two operands and the full lookup yields \<open>Record\<close> or
  \<open>Table\<close>: with neither operand type extended the result is the primitive type of that
  kind, nullable iff either side is; with exactly one operand type extended it is that
  type with \<open>isOpen\<close> set; with both extended by the same extended kind it has the
  fields of the left type overridden by the fields of the right type (\<open>map_of (rev fs)\<close>
  reads the last entry of a name, for a \<^verbatim>\<open>Map\<close> its only one), is nullable iff both
  sides are, and is open iff either side is.
\<close>

theorem inspectTypeTBinOpExpression_record_or_table:
  assumes "maybeCancellationToken state \<noteq> Some True"
    and "isTBinOpExpressionKind state (xorNodeKind xorNode)"
    and "assertIterChildrenXor state (xorNodeId xorNode) = Inr children"
    and "at children 0 = Some left"
    and "at children 1 = Some (XorAst operator)"
    and "constantKind operator = Some ArithmeticOperatorKind_And"
    and "at children 2 = Some right" and "\<not> isXorContext right"
    and "inspectXor state left = Inr leftType"
    and "inspectXor state right = Inr rightType"
    and "mapGet Lookup (lookupKey (kind leftType) ArithmeticOperatorKind_And (kind rightType))
           = Some resultTypeKind"
    and "resultTypeKind = TypeKind_Record \<or> resultTypeKind = TypeKind_Table"
  shows "(maybeExtendedKind leftType = None \<and> maybeExtendedKind rightType = None
          \<longrightarrow> inspectTypeTBinOpExpression state xorNode =
                Inr (primitiveTypeFactory (isNullable leftType \<or> isNullable rightType)
                       resultTypeKind))
       \<and> (maybeExtendedKind leftType \<noteq> None \<and> maybeExtendedKind rightType = None
          \<longrightarrow> inspectTypeTBinOpExpression state xorNode = Inr (withIsOpen leftType True))
       \<and> (maybeExtendedKind leftType = None \<and> maybeExtendedKind rightType \<noteq> None
          \<longrightarrow> inspectTypeTBinOpExpression state xorNode = Inr (withIsOpen rightType True))
       \<and> (maybeExtendedKind leftType \<noteq> None
            \<and> maybeExtendedKind leftType = maybeExtendedKind rightType
          \<longrightarrow> (\<exists>t. inspectTypeTBinOpExpression state xorNode = Inr t
                 \<and> map_of (TType.fields t) =
                     map_of (TType.fields leftType) ++ map_of (rev (TType.fields rightType))
                 \<and> isNullable t = (isNullable leftType \<and> isNullable rightType)
                 \<and> isOpen t = (isOpen leftType \<or> isOpen rightType)
                 \<and> kind t = resultTypeKind
                 \<and> maybeExtendedKind t = maybeExtendedKind leftType))"
proof -
  from Lookup_And_Record_Table [OF assms(11,12)]
  have kinds: "kind leftType = resultTypeKind" "kind rightType = resultTypeKind"
    by simp_all
  have run: "inspectTypeTBinOpExpression state xorNode =
               inspectRecordOrTableUnion leftType rightType"
    using assms(9-12)
    by (simp add: inspectTypeTBinOpExpression_with_right [OF assms(1-8)] inspectFullBinOp_def)
  show ?thesis
  proof (intro conjI impI)
    assume "maybeExtendedKind leftType = None \<and> maybeExtendedKind rightType = None"
    then show "inspectTypeTBinOpExpression state xorNode =
                Inr (primitiveTypeFactory (isNullable leftType \<or> isNullable rightType)
                       resultTypeKind)"
      by (simp add: run inspectRecordOrTableUnion_def kinds)
  next
    assume "maybeExtendedKind leftType \<noteq> None \<and> maybeExtendedKind rightType = None"
    then show "inspectTypeTBinOpExpression state xorNode = Inr (withIsOpen leftType True)"
      by (auto simp: run inspectRecordOrTableUnion_def kinds)
  next
    assume "maybeExtendedKind leftType = None \<and> maybeExtendedKind rightType \<noteq> None"
    then show "inspectTypeTBinOpExpression state xorNode = Inr (withIsOpen rightType True)"
      by (auto simp: run inspectRecordOrTableUnion_def kinds)
  next
    assume both: "maybeExtendedKind leftType \<noteq> None
                  \<and> maybeExtendedKind leftType = maybeExtendedKind rightType"
    then have "inspectTypeTBinOpExpression state xorNode = Inr (unionFields leftType rightType)"
      by (auto simp: run inspectRecordOrTableUnion_def kinds)
    moreover have "isNullable (unionFields leftType rightType) =
                     (isNullable leftType \<and> isNullable rightType)"
      and "isOpen (unionFields leftType rightType) = (isOpen leftType \<or> isOpen rightType)"
      and "kind (unionFields leftType rightType) = resultTypeKind"
      and "maybeExtendedKind (unionFields leftType rightType) = maybeExtendedKind leftType"
      by (simp_all add: unionFields_def Let_def kinds)
    ultimately show "\<exists>t. inspectTypeTBinOpExpression state xorNode = Inr t
                 \<and> map_of (TType.fields t) =
                     map_of (TType.fields leftType) ++ map_of (rev (TType.fields rightType))
                 \<and> isNullable t = (isNullable leftType \<and> isNullable rightType)
                 \<and> isOpen t = (isOpen leftType \<or> isOpen rightType)
                 \<and> kind t = resultTypeKind
                 \<and> maybeExtendedKind t = maybeExtendedKind leftType"
      using map_of_unionFields [of leftType rightType] by blast
  qed
qed

lemma Lookup_Record_And:
  "mapGet Lookup (lookupKey TypeKind_Record ArithmeticOperatorKind_And TypeKind_Record)
     = Some TypeKind_Record"
proof -
  have "\<exists>v. mapGet Lookup (lookupKey TypeKind_Record ArithmeticOperatorKind_And TypeKind_Record)
            = Some v"
  proof -
    have "lookupKey TypeKind_Record ArithmeticOperatorKind_And TypeKind_Record
            \<in> set (mapKeys Lookup)"
      unfolding Lookup_keys by (simp add: lookup_defs)
    then have "map_of Lookup
        (lookupKey TypeKind_Record ArithmeticOperatorKind_And TypeKind_Record) \<noteq> None"
      unfolding mapKeys_def by (simp only: map_of_eq_None_iff set_map not_not)
    then show ?thesis
      by (simp add: mapGet_def)
  qed
  then obtain v where v: "mapGet Lookup
      (lookupKey TypeKind_Record ArithmeticOperatorKind_And TypeKind_Record) = Some v" ..
  from mapGet_Lookup_entry [OF v] have "v = TypeKind_Record"
    by (auto simp: lookup_defs)
  with v show ?thesis by simp
qed

theorem inspectTypeTBinOpExpression_record_or_table_witness:
  "inspectTypeTBinOpExpression
     (ampersandState (primitiveTypeFactory False TypeKind_Record)
                     (primitiveTypeFactory True TypeKind_Record))
     (XorAst finishedSum)
     = Inr (primitiveTypeFactory True TypeKind_Record)
   \<and> inspectTypeTBinOpExpression
       (ampersandState (definedRecord [(''a'', primitiveTypeFactory False TypeKind_Number)] False False)
                       (primitiveTypeFactory False TypeKind_Record))
       (XorAst finishedSum)
     = Inr (definedRecord [(''a'', primitiveTypeFactory False TypeKind_Number)] False True)
   \<and> inspectTypeTBinOpExpression
       (ampersandState (primitiveTypeFactory False TypeKind_Record)
                       (definedRecord [(''b'', primitiveTypeFactory False TypeKind_Number)] True False))
       (XorAst finishedSum)
     = Inr (definedRecord [(''b'', primitiveTypeFactory False TypeKind_Number)] True True)
   \<and> (\<exists>t. inspectTypeTBinOpExpression
             (ampersandState
                (definedRecord [(''a'', primitiveTypeFactory False TypeKind_Number),
                                (''b'', primitiveTypeFactory False TypeKind_Number)] True False)
                (definedRecord [(''b'', primitiveTypeFactory False TypeKind_Text)] False True))
             (XorAst finishedSum) = Inr t
          \<and> map_of (TType.fields t) ''a'' = Some (primitiveTypeFactory False TypeKind_Number)
          \<and> map_of (TType.fields t) ''b'' = Some (primitiveTypeFactory False TypeKind_Text)
          \<and> \<not> isNullable t \<and> isOpen t)"
proof -
  have shape: "maybeCancellationToken (ampersandState l r) \<noteq> Some True"
    "isTBinOpExpressionKind (ampersandState l r) (xorNodeKind (XorAst finishedSum))"
    "assertIterChildrenXor (ampersandState l r) (xorNodeId (XorAst finishedSum)) =
       Inr [XorAst (operandNode 3 0), XorAst constantAmpersand, XorAst (operandNode 5 2)]"
    "at [XorAst (operandNode 3 0), XorAst constantAmpersand, XorAst (operandNode 5 2)] 0
       = Some (XorAst (operandNode 3 0))"
    "at [XorAst (operandNode 3 0), XorAst constantAmpersand, XorAst (operandNode 5 2)] 1
       = Some (XorAst constantAmpersand)"
    "constantKind constantAmpersand = Some ArithmeticOperatorKind_And"
    "at [XorAst (operandNode 3 0), XorAst constantAmpersand, XorAst (operandNode 5 2)] 2
       = Some (XorAst (operandNode 5 2))"
    "\<not> isXorContext (XorAst (operandNode 5 2))"
    "inspectXor (ampersandState l r) (XorAst (operandNode 3 0)) = Inr l"
    "inspectXor (ampersandState l r) (XorAst (operandNode 5 2)) = Inr r"
    for l r
    by (simp_all add: ampersandState_def finishedSum_def constantAmpersand_def operandNode_def)
  note inst = inspectTypeTBinOpExpression_record_or_table [OF shape, of _ _ TypeKind_Record]
  have a: "inspectTypeTBinOpExpression
     (ampersandState (primitiveTypeFactory False TypeKind_Record)
                     (primitiveTypeFactory True TypeKind_Record))
     (XorAst finishedSum)
     = Inr (primitiveTypeFactory True TypeKind_Record)"
    using inst [of "primitiveTypeFactory False TypeKind_Record"
                   "primitiveTypeFactory True TypeKind_Record"] Lookup_Record_And
    by (simp add: primitiveTypeFactory_def)
  have b: "inspectTypeTBinOpExpression
       (ampersandState (definedRecord [(''a'', primitiveTypeFactory False TypeKind_Number)] False False)
                       (primitiveTypeFactory False TypeKind_Record))
       (XorAst finishedSum)
     = Inr (definedRecord [(''a'', primitiveTypeFactory False TypeKind_Number)] False True)"
    using inst [of "definedRecord [(''a'', primitiveTypeFactory False TypeKind_Number)] False False"
                   "primitiveTypeFactory False TypeKind_Record"] Lookup_Record_And
    by (simp add: primitiveTypeFactory_def definedRecord_def)
  have c: "inspectTypeTBinOpExpression
       (ampersandState (primitiveTypeFactory False TypeKind_Record)
                       (definedRecord [(''b'', primitiveTypeFactory False TypeKind_Number)] True False))
       (XorAst finishedSum)
     = Inr (definedRecord [(''b'', primitiveTypeFactory False TypeKind_Number)] True True)"
    using inst [of "primitiveTypeFactory False TypeKind_Record"
                   "definedRecord [(''b'', primitiveTypeFactory False TypeKind_Number)] True False"]
          Lookup_Record_And
    by (simp add: primitiveTypeFactory_def definedRecord_def)
  have d: "\<exists>t. inspectTypeTBinOpExpression
             (ampersandState
                (definedRecord [(''a'', primitiveTypeFactory False TypeKind_Number),
                                (''b'', primitiveTypeFactory False TypeKind_Number)] True False)
                (definedRecord [(''b'', primitiveTypeFactory False TypeKind_Text)] False True))
             (XorAst finishedSum) = Inr t
          \<and> map_of (TType.fields t) ''a'' = Some (primitiveTypeFactory False TypeKind_Number)
          \<and> map_of (TType.fields t) ''b'' = Some (primitiveTypeFactory False TypeKind_Text)
          \<and> \<not> isNullable t \<and> isOpen t"
    using inst [of "definedRecord [(''a'', primitiveTypeFactory False TypeKind_Number),
                                (''b'', primitiveTypeFactory False TypeKind_Number)] True False"
                   "definedRecord [(''b'', primitiveTypeFactory False TypeKind_Text)] False True"]
          Lookup_Record_And
    by (auto simp: primitiveTypeFactory_def definedRecord_def)
  from a b c d show ?thesis by (intro conjI)
qed

section \<open>Properties of \<^verbatim>\<open>tryRead\<close>\<close>

lemma at_nth: "i < length xs \<Longrightarrow> at xs i = Some (xs ! i)"
  by (induction xs i rule: at.induct) auto

lemma at_None: "length xs \<le> i \<Longrightarrow> at xs i = None"
  by (induction xs i rule: at.induct) auto

lemma ensureCommonError_CommonError: "ensureCommonError thrown \<noteq> ParseError err state"
  by (cases thrown) simp_all

text \<open>
  Claim C2, as stated, fails when the reader leaves the token index past the end of the
  tokens: the read has succeeded, no context is open and no token is left unconsumed,
  yet the result is an error, the \<^verbatim>\<open>ParseError\<close> built around the invariant fault of
  \<^verbatim>\<open>assertGetTokenAt\<close>.
\<close>

theorem tryRead_index_past_end:
  "tryRead (stateOver [] 0 None) (readWith (Inr literalOne) 1) =
     Err (ParseError (ThrownInnerCommon (InvariantError ''Assert.isDefined''))
            (stateOver [] 1 None))
   \<and> fst (readWith (Inr literalOne) 1 (stateOver [] 0 None)) = Inr literalOne
   \<and> maybeCurrentContextNode (stateOver [] 1 None) = None
   \<and> \<not> tokenIndex (stateOver [] 1 None) < length (tokens (lexerSnapshot (stateOver [] 1 None)))"
  by (simp add: tryRead_def readWith_def stateOver_def assertNoOpenContext_def
        assertNoMoreTokens_def assertGetTokenAt_def)

text \<open>
  Claim C2, amended. \<^verbatim>\<open>tryRead\<close> returns the \<^verbatim>\<open>ParseError\<close> carrying the thrown error
  and the current state when the reader throws an inner parse error; a \<^verbatim>\<open>CommonError\<close>
  when the reader throws anything else, and when the read succeeds with a context still
  open; the \<^verbatim>\<open>ParseError\<close> of an \<^verbatim>\<open>UnusedTokensRemainError\<close> for the token at the
  index, with the state, when the read succeeds with no open context and the token index
  is less than the number of tokens; and \<^verbatim>\<open>ok\<close> of the root, the id map, the leaf ids
  and the state when the read succeeds with no open context and the token index equals
  the number of tokens. Every \<^verbatim>\<open>ParseError\<close> returned carries the state the reader left.
\<close>

theorem tryRead_cases:
  "(read state0 = (Inl (ThrownInnerParse e), state)
      \<longrightarrow> tryRead state0 read = Err (ParseError (ThrownInnerParse e) state))
   \<and> (read state0 = (Inl thrown, state) \<and> \<not> isTInnerParseError thrown
      \<longrightarrow> (\<exists>inner. tryRead state0 read = Err (CommonError inner)))
   \<and> (read state0 = (Inr root, state) \<and> maybeCurrentContextNode state \<noteq> None
      \<longrightarrow> (\<exists>inner. tryRead state0 read = Err (CommonError inner)))
   \<and> (read state0 = (Inr root, state) \<and> maybeCurrentContextNode state = None
        \<and> tokenIndex state < length (tokens (lexerSnapshot state))
      \<longrightarrow> tryRead state0 read =
            Err (ParseError
                   (ThrownInnerParse
                      (UnusedTokensRemainError
                         (tokens (lexerSnapshot state) ! tokenIndex state)
                         (graphemePositionStartFrom (lexerSnapshot state)
                            (tokens (lexerSnapshot state) ! tokenIndex state))))
                   state))
   \<and> (read state0 = (Inr root, state) \<and> maybeCurrentContextNode state = None
        \<and> tokenIndex state = length (tokens (lexerSnapshot state))
      \<longrightarrow> tryRead state0 read =
            Ok (ParseOk root (nodeIdMapCollection (contextState state))
                  (leafNodeIds (contextState state)) state))
   \<and> (tryRead state0 read = Err (ParseError err state1) \<longrightarrow> state1 = snd (read state0))"
proof (intro conjI impI)
  assume "read state0 = (Inl (ThrownInnerParse e), state)"
  then show "tryRead state0 read = Err (ParseError (ThrownInnerParse e) state)"
    by (simp add: tryRead_def)
next
  assume "read state0 = (Inl thrown, state) \<and> \<not> isTInnerParseError thrown"
  then show "\<exists>inner. tryRead state0 read = Err (CommonError inner)"
    by (cases thrown) (simp_all add: tryRead_def)
next
  assume "read state0 = (Inr root, state) \<and> maybeCurrentContextNode state \<noteq> None"
  then show "\<exists>inner. tryRead state0 read = Err (CommonError inner)"
    by (auto simp: tryRead_def assertNoOpenContext_def)
next
  assume "read state0 = (Inr root, state) \<and> maybeCurrentContextNode state = None
        \<and> tokenIndex state < length (tokens (lexerSnapshot state))"
  then show "tryRead state0 read =
            Err (ParseError
                   (ThrownInnerParse
                      (UnusedTokensRemainError
                         (tokens (lexerSnapshot state) ! tokenIndex state)
                         (graphemePositionStartFrom (lexerSnapshot state)
                            (tokens (lexerSnapshot state) ! tokenIndex state))))
                   state)"
    by (simp add: tryRead_def assertNoOpenContext_def assertNoMoreTokens_def
          assertGetTokenAt_def at_nth)
next
  assume "read state0 = (Inr root, state) \<and> maybeCurrentContextNode state = None
        \<and> tokenIndex state = length (tokens (lexerSnapshot state))"
  then show "tryRead state0 read =
            Ok (ParseOk root (nodeIdMapCollection (contextState state))
                  (leafNodeIds (contextState state)) state)"
    by (simp add: tryRead_def assertNoOpenContext_def assertNoMoreTokens_def)
next
  assume "tryRead state0 read = Err (ParseError err state1)"
  then show "state1 = snd (read state0)"
    using ensureCommonError_CommonError
    by (auto simp: tryRead_def split: prod.splits sum.splits if_splits)
qed

theorem tryRead_cases_witness:
  "tryRead (stateOver [numberToken] 0 None)
     (readWith (Inl (ThrownInnerParse (OtherInnerParseError ''ExpectedTokenKindError''))) 0)
     = Err (ParseError (ThrownInnerParse (OtherInnerParseError ''ExpectedTokenKindError''))
              (stateOver [numberToken] 0 None))
   \<and> (\<exists>inner. tryRead (stateOver [numberToken] 0 None) (readWith (Inl (ThrownOther ''TypeError'')) 0)
               = Err (CommonError inner))
   \<and> (\<exists>inner. tryRead (stateOver [numberToken] 0 (Some openSum)) (readWith (Inr literalOne) 1)
               = Err (CommonError inner))
   \<and> tryRead (stateOver [numberToken, numberToken] 0 None) (readWith (Inr literalOne) 1)
       = Err (ParseError
                (ThrownInnerParse
                   (UnusedTokensRemainError numberToken
                      \<lparr>graphemeLineNumber = 0, graphemeLineCodeUnit = 0, columnNumber = 0,
                         maybeCodeUnit = Some 0\<rparr>))
                ((stateOver [numberToken, numberToken] 0 None)\<lparr>tokenIndex := 1\<rparr>))
   \<and> tryRead (stateOver [numberToken] 0 None) (readWith (Inr literalOne) 1)
       = Ok (ParseOk literalOne newCollection []
               ((stateOver [numberToken] 0 None)\<lparr>tokenIndex := 1\<rparr>))"
proof -
  have a: "tryRead (stateOver [numberToken] 0 None)
     (readWith (Inl (ThrownInnerParse (OtherInnerParseError ''ExpectedTokenKindError''))) 0)
     = Err (ParseError (ThrownInnerParse (OtherInnerParseError ''ExpectedTokenKindError''))
              (stateOver [numberToken] 0 None))"
    by (rule tryRead_cases [THEN conjunct1, rule_format])
       (simp add: readWith_def stateOver_def)
  have b: "\<exists>inner. tryRead (stateOver [numberToken] 0 None)
                     (readWith (Inl (ThrownOther ''TypeError'')) 0) = Err (CommonError inner)"
    by (rule tryRead_cases [THEN conjunct2, THEN conjunct1, rule_format,
                            where thrown = "ThrownOther ''TypeError''"
                              and state = "stateOver [numberToken] 0 None"])
       (simp add: readWith_def stateOver_def)
  have c: "\<exists>inner. tryRead (stateOver [numberToken] 0 (Some openSum))
                     (readWith (Inr literalOne) 1) = Err (CommonError inner)"
    by (rule tryRead_cases [THEN conjunct2, THEN conjunct2, THEN conjunct1, rule_format,
                            where root = literalOne
                              and state = "(stateOver [numberToken] 0 (Some openSum))
                                             \<lparr>tokenIndex := 1\<rparr>"])
       (simp add: readWith_def stateOver_def)
  have d: "tryRead (stateOver [numberToken, numberToken] 0 None) (readWith (Inr literalOne) 1)
       = Err (ParseError
                (ThrownInnerParse
                   (UnusedTokensRemainError
                      (tokens (lexerSnapshot ((stateOver [numberToken, numberToken] 0 None)
                                                \<lparr>tokenIndex := 1\<rparr>))
                         ! tokenIndex ((stateOver [numberToken, numberToken] 0 None)
                                         \<lparr>tokenIndex := 1\<rparr>))
                      (graphemePositionStartFrom
                         (lexerSnapshot ((stateOver [numberToken, numberToken] 0 None)
                                           \<lparr>tokenIndex := 1\<rparr>))
                         (tokens (lexerSnapshot ((stateOver [numberToken, numberToken] 0 None)
                                                   \<lparr>tokenIndex := 1\<rparr>))
                            ! tokenIndex ((stateOver [numberToken, numberToken] 0 None)
                                            \<lparr>tokenIndex := 1\<rparr>)))))
                ((stateOver [numberToken, numberToken] 0 None)\<lparr>tokenIndex := 1\<rparr>))"
    by (rule tryRead_cases [THEN conjunct2, THEN conjunct2, THEN conjunct2, THEN conjunct1,
                            rule_format, where root = literalOne])
       (simp add: readWith_def stateOver_def)
  have d': "tokens (lexerSnapshot ((stateOver [numberToken, numberToken] 0 None)
                                     \<lparr>tokenIndex := 1\<rparr>))
              ! tokenIndex ((stateOver [numberToken, numberToken] 0 None)\<lparr>tokenIndex := 1\<rparr>)
            = numberToken"
    by (simp add: stateOver_def)
  have d'': "graphemePositionStartFrom
               (lexerSnapshot ((stateOver [numberToken, numberToken] 0 None)
                                 \<lparr>tokenIndex := 1\<rparr>)) numberToken
             = \<lparr>graphemeLineNumber = 0, graphemeLineCodeUnit = 0, columnNumber = 0,
                  maybeCodeUnit = Some 0\<rparr>"
    by (simp add: stateOver_def numberToken_def)
  have e: "tryRead (stateOver [numberToken] 0 None) (readWith (Inr literalOne) 1)
       = Ok (ParseOk literalOne
               (nodeIdMapCollection (contextState ((stateOver [numberToken] 0 None)
                                                     \<lparr>tokenIndex := 1\<rparr>)))
               (leafNodeIds (contextState ((stateOver [numberToken] 0 None)
                                             \<lparr>tokenIndex := 1\<rparr>)))
               ((stateOver [numberToken] 0 None)\<lparr>tokenIndex := 1\<rparr>))"
    by (rule tryRead_cases [THEN conjunct2, THEN conjunct2, THEN conjunct2, THEN conjunct2,
                            THEN conjunct1, rule_format])
       (simp add: readWith_def stateOver_def)
  have e': "nodeIdMapCollection (contextState ((stateOver [numberToken] 0 None)
                                                 \<lparr>tokenIndex := 1\<rparr>)) = newCollection"
    "leafNodeIds (contextState ((stateOver [numberToken] 0 None)\<lparr>tokenIndex := 1\<rparr>)) = []"
    by (simp_all add: stateOver_def)
  from a b c d [unfolded d' d''] e [unfolded e'] show ?thesis by (intro conjI)
qed

section \<open>Properties of autocomplete\<close>

lemma set_concatUnique: "set (concatUnique left right) = set left \<union> set right"
  by (simp add: concatUnique_def set_foldl_setAdd)

lemma distinct_foldl_setAdd: "distinct s \<Longrightarrow> distinct (foldl setAdd s xs)"
  by (induction xs arbitrary: s) (auto simp: setAdd_def)

lemma distinct_concatUnique: "distinct (concatUnique left right)"
  by (simp add: concatUnique_def distinct_foldl_setAdd)

lemma filterRecommendations_startsWith:
  "k \<in> set (filterRecommendations inspected (Some positionName)) \<Longrightarrow> startsWith k positionName"
  by (simp add: filterRecommendations_def)

text \<open>
  Claim C8. With no trailing token and an ancestry of exactly two nodes, an AST
  identifier below an identifier expression, \<^verbatim>\<open>autocompleteKeyword\<close> returns exactly the
  start-of-document keywords that begin with the identifier's literal; for the start
  keywords of the language and the literal \<open>l\<close> that is \<open>[let]\<close>.
\<close>

theorem autocompleteKeyword_lone_identifier:
  assumes "ancestry active = [XorAst leaf, second]"
    and "astKind leaf = NodeKind_Identifier"
    and "xorNodeKind second = NodeKind_IdentifierExpression"
  shows "autocompleteKeyword collaborators collection leafIds active None =
           Inr (filter (\<lambda>keywordKind. startsWith keywordKind (literal leaf))
                  (StartOfDocumentKeywords collaborators))
       \<and> (StartOfDocumentKeywords collaborators = startOfDocumentKeywords
            \<and> literal leaf = ''l''
          \<longrightarrow> autocompleteKeyword collaborators collection leafIds active None =
                Inr [KeywordKind_Let])"
proof -
  have edge: "maybeEdgeCase collaborators
                (keywordState collection leafIds active None (XorAst leaf)) None =
              Inr (Some (filter (\<lambda>keywordKind. startsWith keywordKind (literal leaf))
                           (StartOfDocumentKeywords collaborators)))"
    using assms by (simp add: maybeEdgeCase_def keywordState_def)
  have run: "autocompleteKeyword collaborators collection leafIds active None =
           Inr (filter (\<lambda>keywordKind. startsWith keywordKind (literal leaf))
                  (StartOfDocumentKeywords collaborators))"
    using assms(1) edge by (simp add: autocompleteKeyword_def assertGetLeaf_def Let_def)
  have "filter (\<lambda>keywordKind. startsWith keywordKind ''l'') startOfDocumentKeywords =
          [KeywordKind_Let]"
    by (simp add: startOfDocumentKeywords_def startsWith_def)
  with run show ?thesis by simp
qed

theorem autocompleteKeyword_lone_identifier_witness:
  "autocompleteKeyword (exampleCollaborators True False) newCollection [2]
     (caretAfter 1 [XorAst identifierL, XorAst identifierExpressionL] (Some identifierL)) None =
   Inr [KeywordKind_Let]"
proof -
  have shape:
    "ancestry (caretAfter 1 [XorAst identifierL, XorAst identifierExpressionL] (Some identifierL))
       = [XorAst identifierL, XorAst identifierExpressionL]"
    "astKind identifierL = NodeKind_Identifier"
    "xorNodeKind (XorAst identifierExpressionL) = NodeKind_IdentifierExpression"
    by (simp_all add: caretAfter_def identifierL_def identifierExpressionL_def)
  show ?thesis
    by (rule autocompleteKeyword_lone_identifier [OF shape, THEN conjunct2, rule_format])
       (simp add: exampleCollaborators_def identifierL_def)
qed


lemma maybeEdgeCase_not_identifier:
  assumes "ancestry (activeNode state) = XorAst leaf # second # rest"
    and "astKind leaf \<noteq> NodeKind_Identifier"
  shows "maybeEdgeCase collaborators state trailing = Inr None"
  using assms by (simp add: maybeEdgeCase_def)

lemma handleConjunctions_after_unary_type:
  assumes "ancestry active = XorAst leaf # parents"
    and "leafKind active = ActiveNodeLeafKind_AfterAstNode"
    and "isTUnaryType collaborators (XorAst leaf)"
  shows "handleConjunctions collaborators active inspected None =
           Inr (concatUnique inspected ConjunctionKeywords)"
  using assms by (simp add: handleConjunctions_def assertGetLeaf_def)

text \<open>
  Claim C7, as stated, fails: in the document \<^verbatim>\<open>true|\<close> the leaf is the finished
  literal, a unary-type expression, the caret sits at its end and no token trails; the
  caret being in the literal, \<^verbatim>\<open>maybePositionName\<close> is \<open>true\<close>, and the final filter
  leaves none of the conjunction keywords.
\<close>

theorem conjunctions_filtered_by_position_name:
  "autocompleteKeyword (exampleCollaborators True False) newCollection [1]
     (caretAfter 4 [XorAst literalTrue] None) None = Inr []
   \<and> leafKind (caretAfter 4 [XorAst literalTrue] None) = ActiveNodeLeafKind_AfterAstNode
   \<and> isTUnaryType (exampleCollaborators True False) (XorAst literalTrue)
   \<and> maybePositionNameOf (exampleCollaborators True False) newCollection
        (caretAfter 4 [XorAst literalTrue] None) (XorAst literalTrue) = Some ''true''"
  by (simp add: autocompleteKeyword_def assertGetLeaf_def caretAfter_def
        maybePositionNameOf_def handleConjunctions_def exampleCollaborators_def
        literalTrue_def filterRecommendations_def concatUnique_def ConjunctionKeywords_def
        setAdd_def startsWith_def)

text \<open>
  Claim C7, amended. For an active node whose leaf is a finished unary-type expression
  (not an identifier token), classified \<open>AfterAstNode\<close>, and no trailing token: the list
  that \<^verbatim>\<open>autocompleteKeyword\<close> filters at its end is the suggestions of the ancestry
  followed by the conjunction keywords, duplicates removed; it holds every keyword of
  \<open>and\<close>, \<open>as\<close>, \<open>is\<close>, \<open>meta\<close>, \<open>or\<close>; the returned list is what of it begins with
  \<^verbatim>\<open>maybePositionName\<close>, and all of it when \<^verbatim>\<open>maybePositionName\<close> is not set.
\<close>

theorem autocompleteKeyword_conjunctions:
  assumes "ancestry active = XorAst leaf # parents"
    and "leafKind active = ActiveNodeLeafKind_AfterAstNode"
    and "isTUnaryType collaborators (XorAst leaf)"
    and "astKind leaf \<noteq> NodeKind_Identifier"
    and "ancestrySuggestions collaborators collection leafIds active None (XorAst leaf)
           = Inr ancestors"
  shows "autocompleteKeyword collaborators collection leafIds active None =
           Inr (filterRecommendations (concatUnique ancestors ConjunctionKeywords)
                  (maybePositionNameOf collaborators collection active (XorAst leaf)))
       \<and> set (concatUnique ancestors ConjunctionKeywords) = set ancestors \<union> set ConjunctionKeywords
       \<and> distinct (concatUnique ancestors ConjunctionKeywords)
       \<and> (maybePositionNameOf collaborators collection active (XorAst leaf) = None
          \<longrightarrow> autocompleteKeyword collaborators collection leafIds active None =
                Inr (concatUnique ancestors ConjunctionKeywords))"
proof -
  have leaf: "assertGetLeaf (ancestry active) = Inr (XorAst leaf)"
    using assms(1) by (simp add: assertGetLeaf_def)
  note conj = handleConjunctions_after_unary_type [OF assms(1-3)]
  have run: "autocompleteKeyword collaborators collection leafIds active None =
           Inr (filterRecommendations (concatUnique ancestors ConjunctionKeywords)
                  (maybePositionNameOf collaborators collection active (XorAst leaf)))"
  proof (cases parents)
    case Nil
    with assms(1,5) have "ancestors = []"
      by (simp add: ancestrySuggestions_def)
    with Nil assms(1) leaf conj show ?thesis
      by (simp add: autocompleteKeyword_def Let_def)
  next
    case (Cons second rest)
    with assms(1) have long: "\<not> length (ancestry active) < 2" by simp
    have "ancestry (activeNode (keywordState collection leafIds active None (XorAst leaf)))
            = XorAst leaf # second # rest"
      using assms(1) Cons by (simp add: keywordState_def)
    from maybeEdgeCase_not_identifier [OF this assms(4)]
    have edge: "maybeEdgeCase collaborators
                  (keywordState collection leafIds active None (XorAst leaf)) None = Inr None" .
    from assms(5) long
    have walk: "traverseAncestors collaborators
                  (keywordState collection leafIds active None (XorAst leaf)) = Inr ancestors"
      by (simp add: ancestrySuggestions_def)
    have "activeNode (keywordState collection leafIds active None (XorAst leaf)) = active"
      by (simp add: keywordState_def)
    with long leaf edge walk conj show ?thesis
      by (simp add: autocompleteKeyword_def Let_def)
  qed
  then show ?thesis
    by (simp add: set_concatUnique distinct_concatUnique filterRecommendations_def)
qed

theorem autocompleteKeyword_conjunctions_witness:
  "autocompleteKeyword (exampleCollaborators False False) newCollection [1]
     (caretAfter 5 [XorAst literalTrue] None) None =
   Inr [KeywordKind_And, KeywordKind_As, KeywordKind_Is, KeywordKind_Meta, KeywordKind_Or]"
proof -
  have shape:
    "ancestry (caretAfter 5 [XorAst literalTrue] None) = XorAst literalTrue # []"
    "leafKind (caretAfter 5 [XorAst literalTrue] None) = ActiveNodeLeafKind_AfterAstNode"
    "isTUnaryType (exampleCollaborators False False) (XorAst literalTrue)"
    "astKind literalTrue \<noteq> NodeKind_Identifier"
    "ancestrySuggestions (exampleCollaborators False False) newCollection [1]
       (caretAfter 5 [XorAst literalTrue] None) None (XorAst literalTrue) = Inr []"
    by (simp_all add: caretAfter_def literalTrue_def exampleCollaborators_def
          ancestrySuggestions_def)
  have none: "maybePositionNameOf (exampleCollaborators False False) newCollection
                (caretAfter 5 [XorAst literalTrue] None) (XorAst literalTrue) = None"
    by (simp add: maybePositionNameOf_def exampleCollaborators_def)
  have "concatUnique [] ConjunctionKeywords =
          [KeywordKind_And, KeywordKind_As, KeywordKind_Is, KeywordKind_Meta, KeywordKind_Or]"
    by (simp add: concatUnique_def ConjunctionKeywords_def setAdd_def)
  with autocompleteKeyword_conjunctions [OF shape, THEN conjunct2, THEN conjunct2,
         THEN conjunct2, rule_format, OF none]
  show ?thesis by simp
qed







section \<open>Properties of the rollback\<close>

lemma withoutIds_empty: "withoutIds {} collection = collection"
  by (simp add: withoutIds_def)

lemma map_of_filter_key:
  "map_of (filter (\<lambda>entry. fst entry \<notin> gone) m) k = (if k \<in> gone then None else map_of m k)"
  by (induction m) auto

lemma mapDelete_filter:
  "mapDelete (filter (\<lambda>entry. fst entry \<notin> gone) m) n =
     filter (\<lambda>entry. fst entry \<notin> insert n gone) m"
  by (induction m) (auto simp: mapDelete_def)

lemma childIdsOf_withoutIds:
  "n \<notin> gone \<Longrightarrow>
   childIdsOf (withoutIds gone collection) n = filter (\<lambda>c. c \<notin> gone) (childIdsOf collection n)"
proof -
  assume n: "n \<notin> gone"
  have "map_of (map (\<lambda>entry. (fst entry, filter (\<lambda>c. c \<notin> gone) (snd entry)))
                  (filter (\<lambda>entry. fst entry \<notin> gone) m)) n
          = map_option (filter (\<lambda>c. c \<notin> gone)) (map_of m n)"
    for m :: "(nat \<times> nat list) list"
    using n by (induction m) auto
  then show ?thesis
    by (simp add: childIdsOf_def withoutIds_def mapGet_def split: option.splits)
qed

lemma parent_withoutIds:
  "n \<notin> gone \<Longrightarrow>
   mapGet (parentIdById (withoutIds gone collection)) n = mapGet (parentIdById collection) n"
  by (simp add: withoutIds_def mapGet_def map_of_filter_key)

lemma childIds_step:
  assumes only: "\<forall>entry \<in> set m. n \<in> set (snd entry) \<longrightarrow> maybeParent = Some (fst entry)"
  shows "mapDelete
           (removeFromParent
              (map (\<lambda>entry. (fst entry, filter (\<lambda>c. c \<notin> gone) (snd entry)))
                 (filter (\<lambda>entry. fst entry \<notin> gone) m))
              maybeParent n) n
         = map (\<lambda>entry. (fst entry, filter (\<lambda>c. c \<notin> insert n gone) (snd entry)))
             (filter (\<lambda>entry. fst entry \<notin> insert n gone) m)"
proof -
  define f :: "nat \<times> nat list \<Rightarrow> nat \<times> nat list"
    where "f = (\<lambda>entry. (fst entry, filter (\<lambda>c. c \<notin> gone) (snd entry)))"
  define f' :: "nat \<times> nat list \<Rightarrow> nat \<times> nat list"
    where "f' = (\<lambda>entry. (fst entry, filter (\<lambda>c. c \<notin> insert n gone) (snd entry)))"
  define g :: "nat \<times> nat list \<Rightarrow> nat \<times> nat list"
    where "g = (\<lambda>entry. case maybeParent of
                           None \<Rightarrow> entry
                         | Some parentId \<Rightarrow>
                             if fst entry = parentId
                             then (fst entry, filter (\<lambda>c. c \<noteq> n) (snd entry))
                             else entry)"
  have removal: "removeFromParent xs maybeParent n = map g xs" for xs
    by (simp add: removeFromParent_def g_def split: option.splits)
  have key: "fst (g (f entry)) = fst entry" for entry
    by (simp add: g_def f_def split: option.splits)
  have cut: "filter (\<lambda>c. c \<noteq> n) (filter (\<lambda>c. c \<notin> gone) cs) =
             filter (\<lambda>c. c \<notin> insert n gone) cs" for cs :: "nat list"
    by (induction cs) auto
  have keep: "n \<notin> set cs \<Longrightarrow> filter (\<lambda>c. c \<notin> gone) cs = filter (\<lambda>c. c \<notin> insert n gone) cs"
    for cs :: "nat list"
    by (induction cs) auto
  have same: "g (f entry) = f' entry" if "entry \<in> set m" for entry
  proof (cases maybeParent)
    case None
    with only that have "n \<notin> set (snd entry)" by auto
    from keep [OF this] None show ?thesis by (simp add: g_def f_def f'_def)
  next
    case (Some parentId)
    show ?thesis
    proof (cases "fst entry = parentId")
      case True
      with Some cut show ?thesis by (simp add: g_def f_def f'_def)
    next
      case False
      with only that Some have "n \<notin> set (snd entry)" by auto
      from keep [OF this] Some False show ?thesis by (simp add: g_def f_def f'_def)
    qed
  qed
  have "mapDelete (map g (map f (filter (\<lambda>entry. fst entry \<notin> gone) m))) n =
          map (\<lambda>entry. g (f entry))
            (filter (\<lambda>entry. fst entry \<noteq> n) (filter (\<lambda>entry. fst entry \<notin> gone) m))"
    by (simp add: mapDelete_def filter_map comp_def key)
  also have "filter (\<lambda>entry. fst entry \<noteq> n) (filter (\<lambda>entry. fst entry \<notin> gone) m) =
             filter (\<lambda>entry. fst entry \<notin> insert n gone) m"
    by (induction m) auto
  also have "map (\<lambda>entry. g (f entry)) (filter (\<lambda>entry. fst entry \<notin> insert n gone) m) =
             map f' (filter (\<lambda>entry. fst entry \<notin> insert n gone) m)"
    by (rule map_cong) (simp_all add: same)
  finally show ?thesis
    by (simp only: removal f_def f'_def)
qed

lemma deleteNode_childless:
  assumes listed: "\<forall>entry \<in> set (childIdsById collection).
                     \<forall>c \<in> set (snd entry).
                       mapGet (parentIdById collection) c = Some (fst entry)"
    and n: "n \<notin> gone"
    and children: "set (childIdsOf collection n) \<subseteq> gone"
  shows "deleteNode policy (withoutIds gone collection) n hint =
           withoutIds (insert n gone) collection"
proof -
  have childless: "childIdsOf (withoutIds gone collection) n = []"
    using children by (auto simp: childIdsOf_withoutIds [OF n] filter_empty_conv)
  have parent: "mapGet (parentIdById (withoutIds gone collection)) n =
                  mapGet (parentIdById collection) n"
    using n by (rule parent_withoutIds)
  have only: "\<forall>entry \<in> set (childIdsById collection).
                n \<in> set (snd entry) \<longrightarrow> mapGet (parentIdById collection) n = Some (fst entry)"
    using listed by blast
  show ?thesis
    unfolding deleteNode_def Let_def childless parent
    by (simp add: withoutIds_def mapDelete_filter childIds_step [OF only])
qed


lemma mapGet_filter_key:
  "k \<in> set (mapKeys m) \<Longrightarrow> k \<notin> gone \<Longrightarrow>
   mapGet (filter (\<lambda>entry. fst entry \<notin> gone) m) k \<noteq> None"
  by (simp add: mapGet_def mapKeys_def map_of_filter_key map_of_eq_None_iff)

lemma deleteAstNodes_childrenFirst:
  assumes listed: "\<forall>entry \<in> set (childIdsById collection).
                     \<forall>c \<in> set (snd entry).
                       mapGet (parentIdById collection) c = Some (fst entry)"
    and "\<forall>n \<in> set ns. n \<in> set (mapKeys (astNodeById collection))"
    and "childrenFirst collection gone ns"
    and "nodeIdMapCollection state = withoutIds gone collection"
  shows "\<exists>state'. deleteAstNodes policy state backupIdCounter ns = Inr state'
           \<and> nodeIdMapCollection state' = withoutIds (gone \<union> set ns) collection
           \<and> idCounter state' = idCounter state"
  using assms(2-)
proof (induction ns arbitrary: gone state)
  case Nil
  then show ?case by simp
next
  case (Cons n ns)
  from Cons.prems have n: "n \<notin> gone" and children: "set (childIdsOf collection n) \<subseteq> gone"
    and rest: "childrenFirst collection (insert n gone) ns"
    and ast: "n \<in> set (mapKeys (astNodeById collection))"
    by simp_all
  define hint where
    "hint = (case mapGet (parentIdById (nodeIdMapCollection state)) n of
               None \<Rightarrow> False | Some parentId \<Rightarrow> parentId \<ge> backupIdCounter)"
  define state1 where
    "state1 = state\<lparr>nodeIdMapCollection := withoutIds (insert n gone) collection,
                     leafNodeIds := filter (\<lambda>leafId. leafId \<noteq> n) (leafNodeIds state)\<rparr>"
  have present: "mapGet (astNodeById (nodeIdMapCollection state)) n \<noteq> None"
    using mapGet_filter_key [OF ast n] Cons.prems(3) by (simp add: withoutIds_def)
  have "ParseContextUtils_deleteAst policy state n hint = Inr state1"
    using present Cons.prems(3) deleteNode_childless [OF listed n children]
    by (simp add: ParseContextUtils_deleteAst_def state1_def)
  then have step: "deleteAstNodes policy state backupIdCounter (n # ns) =
                     deleteAstNodes policy state1 backupIdCounter ns"
    by (simp add: hint_def Let_def)
  have "\<exists>state'. deleteAstNodes policy state1 backupIdCounter ns = Inr state'
           \<and> nodeIdMapCollection state' = withoutIds (insert n gone \<union> set ns) collection
           \<and> idCounter state' = idCounter state1"
    using Cons.prems(1) rest by (intro Cons.IH) (simp_all add: state1_def)
  then show ?case
    unfolding step by (simp add: state1_def)
qed

lemma deleteContextNodes_childrenFirst:
  assumes listed: "\<forall>entry \<in> set (childIdsById collection).
                     \<forall>c \<in> set (snd entry).
                       mapGet (parentIdById collection) c = Some (fst entry)"
    and "\<forall>n \<in> set ns. n \<in> set (mapKeys (contextNodeById collection))"
    and "childrenFirst collection gone ns"
    and "nodeIdMapCollection state = withoutIds gone collection"
  shows "\<exists>state'. deleteContextNodes policy state ns = Inr state'
           \<and> nodeIdMapCollection state' = withoutIds (gone \<union> set ns) collection
           \<and> idCounter state' = idCounter state"
  using assms(2-)
proof (induction ns arbitrary: gone state)
  case Nil
  then show ?case by simp
next
  case (Cons n ns)
  from Cons.prems have n: "n \<notin> gone" and children: "set (childIdsOf collection n) \<subseteq> gone"
    and rest: "childrenFirst collection (insert n gone) ns"
    and open_context: "n \<in> set (mapKeys (contextNodeById collection))"
    by simp_all
  define state1 where
    "state1 = state\<lparr>nodeIdMapCollection := withoutIds (insert n gone) collection\<rparr>"
  have present: "mapGet (contextNodeById (nodeIdMapCollection state)) n \<noteq> None"
    using mapGet_filter_key [OF open_context n] Cons.prems(3) by (simp add: withoutIds_def)
  have "\<exists>newCurrent. ParseContextUtils_deleteContext policy state n = Inr (state1, newCurrent)"
    using present Cons.prems(3) deleteNode_childless [OF listed n children]
    by (simp add: ParseContextUtils_deleteContext_def state1_def Let_def)
  then have step: "deleteContextNodes policy state (n # ns) =
                     deleteContextNodes policy state1 ns"
    by auto
  have "\<exists>state'. deleteContextNodes policy state1 ns = Inr state'
           \<and> nodeIdMapCollection state' = withoutIds (insert n gone \<union> set ns) collection
           \<and> idCounter state' = idCounter state1"
    using Cons.prems(1) rest by (intro Cons.IH) (simp_all add: state1_def)
  then show ?case
    unfolding step by (simp add: state1_def)
qed

lemma childrenFirst_descending:
  assumes "sorted (rev ns)" and "distinct ns" and "set ns \<inter> gone = {}"
    and "\<forall>n \<in> set ns. \<forall>c \<in> set (childIdsOf collection n). c \<in> gone \<or> (c \<in> set ns \<and> n < c)"
  shows "childrenFirst collection gone ns"
  using assms
proof (induction ns arbitrary: gone)
  case Nil
  then show ?case by simp
next
  case (Cons n ns)
  from Cons.prems(1) have sorted: "sorted (rev ns)" and top: "\<forall>m \<in> set ns. m \<le> n"
    by (simp_all add: sorted_append)
  have children: "set (childIdsOf collection n) \<subseteq> gone"
  proof
    fix c assume "c \<in> set (childIdsOf collection n)"
    with Cons.prems(4) have "c \<in> gone \<or> (c \<in> set (n # ns) \<and> n < c)" by simp
    with top show "c \<in> gone" by auto
  qed
  have "childrenFirst collection (insert n gone) ns"
  proof (rule Cons.IH [OF sorted])
    show "distinct ns" using Cons.prems(2) by simp
    show "set ns \<inter> insert n gone = {}" using Cons.prems(2,3) by auto
    show "\<forall>m \<in> set ns. \<forall>c \<in> set (childIdsOf collection m).
            c \<in> insert n gone \<or> (c \<in> set ns \<and> m < c)"
      using Cons.prems(4) by auto
  qed
  with children Cons.prems(3) show ?case by simp
qed

lemma childIdsOf_listed:
  assumes "c \<in> set (childIdsOf collection n)"
  shows "\<exists>entry \<in> set (childIdsById collection). fst entry = n \<and> c \<in> set (snd entry)"
proof (cases "mapGet (childIdsById collection) n")
  case None
  with assms show ?thesis by (simp add: childIdsOf_def)
next
  case (Some cs)
  then have "(n, cs) \<in> set (childIdsById collection)"
    by (simp add: mapGet_def map_of_SomeD)
  with assms Some show ?thesis by (force simp: childIdsOf_def)
qed

lemma wellFormed_child:
  assumes wf: "wellFormed collection" and child: "c \<in> set (childIdsOf collection n)"
  shows "n < c"
    and "c \<in> set (mapKeys (astNodeById collection)) \<union> set (mapKeys (contextNodeById collection))"
    and "c \<in> set (mapKeys (contextNodeById collection)) \<Longrightarrow>
         n \<in> set (mapKeys (contextNodeById collection))"
proof -
  from childIdsOf_listed [OF child] wf
  have "mapGet (parentIdById collection) c = Some n"
    by (auto simp: wellFormed_def)
  then have entry: "(c, n) \<in> set (parentIdById collection)"
    by (simp add: mapGet_def map_of_SomeD)
  from wf have "\<forall>entry \<in> set (parentIdById collection).
           snd entry < fst entry
           \<and> fst entry \<in> set (mapKeys (astNodeById collection))
                           \<union> set (mapKeys (contextNodeById collection))
           \<and> (fst entry \<in> set (mapKeys (contextNodeById collection))
                \<longrightarrow> snd entry \<in> set (mapKeys (contextNodeById collection)))"
    by (simp add: wellFormed_def)
  with entry have facts: "snd (c, n) < fst (c, n)
           \<and> fst (c, n) \<in> set (mapKeys (astNodeById collection))
                           \<union> set (mapKeys (contextNodeById collection))
           \<and> (fst (c, n) \<in> set (mapKeys (contextNodeById collection))
                \<longrightarrow> snd (c, n) \<in> set (mapKeys (contextNodeById collection)))"
    by blast
  from facts show "n < c" by simp
  from facts show "c \<in> set (mapKeys (astNodeById collection))
                       \<union> set (mapKeys (contextNodeById collection))" by simp
  from facts show "c \<in> set (mapKeys (contextNodeById collection)) \<Longrightarrow>
         n \<in> set (mapKeys (contextNodeById collection))" by simp
qed


lemma withoutIds_nodes:
  assumes wf: "wellFormed collection"
    and same: "\<forall>nodeId \<in> set (mapKeys (astNodeById collection))
                          \<union> set (mapKeys (contextNodeById collection)).
                 (nodeId \<in> gone) = (nodeId \<in> gone')"
  shows "withoutIds gone collection = withoutIds gone' collection"
proof -
  have ast: "filter (\<lambda>entry. fst entry \<notin> gone) (astNodeById collection) =
             filter (\<lambda>entry. fst entry \<notin> gone') (astNodeById collection)"
    using same by (intro filter_cong) (auto simp: mapKeys_def)
  have ctx: "filter (\<lambda>entry. fst entry \<notin> gone) (contextNodeById collection) =
             filter (\<lambda>entry. fst entry \<notin> gone') (contextNodeById collection)"
    using same by (intro filter_cong) (auto simp: mapKeys_def)
  have parent_node: "fst entry \<in> set (mapKeys (astNodeById collection))
                                  \<union> set (mapKeys (contextNodeById collection))"
    if "entry \<in> set (parentIdById collection)" for entry
    using wf that by (auto simp: wellFormed_def)
  have parent: "filter (\<lambda>entry. fst entry \<notin> gone) (parentIdById collection) =
                filter (\<lambda>entry. fst entry \<notin> gone') (parentIdById collection)"
    using same parent_node by (intro filter_cong) auto
  have owner_node: "fst entry \<in> set (mapKeys (astNodeById collection))
                                 \<union> set (mapKeys (contextNodeById collection))"
    if "entry \<in> set (childIdsById collection)" for entry
    using wf that by (auto simp: wellFormed_def)
  have child_node: "c \<in> set (mapKeys (astNodeById collection))
                          \<union> set (mapKeys (contextNodeById collection))"
    if "entry \<in> set (childIdsById collection)" and "c \<in> set (snd entry)" for entry c
  proof -
    from wf that have "mapGet (parentIdById collection) c = Some (fst entry)"
      by (auto simp: wellFormed_def)
    then have "(c, fst entry) \<in> set (parentIdById collection)"
      by (simp add: mapGet_def map_of_SomeD)
    from parent_node [OF this] show ?thesis by simp
  qed
  have owners: "filter (\<lambda>entry. fst entry \<notin> gone) (childIdsById collection) =
                filter (\<lambda>entry. fst entry \<notin> gone') (childIdsById collection)"
    using same owner_node by (intro filter_cong) auto
  have lists: "map (\<lambda>entry. (fst entry, filter (\<lambda>c. c \<notin> gone) (snd entry)))
                 (filter (\<lambda>entry. fst entry \<notin> gone') (childIdsById collection)) =
               map (\<lambda>entry. (fst entry, filter (\<lambda>c. c \<notin> gone') (snd entry)))
                 (filter (\<lambda>entry. fst entry \<notin> gone') (childIdsById collection))"
  proof (rule map_cong [OF refl])
    fix entry
    assume "entry \<in> set (filter (\<lambda>entry. fst entry \<notin> gone') (childIdsById collection))"
    then have entry: "entry \<in> set (childIdsById collection)" by simp
    have "filter (\<lambda>c. c \<notin> gone) (snd entry) = filter (\<lambda>c. c \<notin> gone') (snd entry)"
      using same child_node [OF entry] by (intro filter_cong) auto
    then show "(fst entry, filter (\<lambda>c. c \<notin> gone) (snd entry)) =
               (fst entry, filter (\<lambda>c. c \<notin> gone') (snd entry))"
      by simp
  qed
  show ?thesis
    by (simp add: withoutIds_def ast ctx parent owners lists)
qed

lemma rollback_collection:
  assumes wf: "wellFormed collection"
    and start: "nodeIdMapCollection state = collection"
  shows "\<exists>withoutAst withoutContexts.
           deleteAstNodes policy state backupIdCounter
             (rev (sort (newAstNodeIds collection backupIdCounter))) = Inr withoutAst
         \<and> deleteContextNodes policy withoutAst
             (rev (sort (newContextNodeIds collection backupIdCounter))) = Inr withoutContexts
         \<and> nodeIdMapCollection withoutContexts =
             withoutIds {nodeId. backupIdCounter < nodeId} collection
         \<and> idCounter withoutContexts = idCounter state"
proof -
  let ?A = "newAstNodeIds collection backupIdCounter"
  let ?C = "newContextNodeIds collection backupIdCounter"
  from wf have listed: "\<forall>entry \<in> set (childIdsById collection).
                     \<forall>c \<in> set (snd entry).
                       mapGet (parentIdById collection) c = Some (fst entry)"
    by (simp add: wellFormed_def)
  from wf have disjoint: "set (mapKeys (astNodeById collection))
                            \<inter> set (mapKeys (contextNodeById collection)) = {}"
    and distinctA: "distinct ?A" and distinctC: "distinct ?C"
    by (simp_all add: wellFormed_def newAstNodeIds_def newContextNodeIds_def)
  have setA: "set ?A = {n \<in> set (mapKeys (astNodeById collection)). backupIdCounter < n}"
    and setC: "set ?C = {n \<in> set (mapKeys (contextNodeById collection)). backupIdCounter < n}"
    by (auto simp: newAstNodeIds_def newContextNodeIds_def)
  have firstA: "childrenFirst collection {} (rev (sort ?A))"
  proof (rule childrenFirst_descending)
    show "sorted (rev (rev (sort ?A)))" by simp
    show "distinct (rev (sort ?A))" using distinctA by simp
    show "set (rev (sort ?A)) \<inter> {} = {}" by simp
    show "\<forall>n \<in> set (rev (sort ?A)). \<forall>c \<in> set (childIdsOf collection n).
            c \<in> {} \<or> (c \<in> set (rev (sort ?A)) \<and> n < c)"
    proof (intro ballI)
      fix n c
      assume n: "n \<in> set (rev (sort ?A))" and c: "c \<in> set (childIdsOf collection n)"
      from n setA have ast: "n \<in> set (mapKeys (astNodeById collection))"
        and above: "backupIdCounter < n" by simp_all
      note child = wellFormed_child [OF wf c]
      from ast disjoint have "n \<notin> set (mapKeys (contextNodeById collection))" by auto
      with child(3) have "c \<notin> set (mapKeys (contextNodeById collection))" by auto
      with child(2) have "c \<in> set (mapKeys (astNodeById collection))" by simp
      with child(1) above setA show "c \<in> {} \<or> (c \<in> set (rev (sort ?A)) \<and> n < c)"
        by simp
    qed
  qed
  have astKeys: "\<forall>n \<in> set (rev (sort ?A)). n \<in> set (mapKeys (astNodeById collection))"
    using setA by simp
  from deleteAstNodes_childrenFirst [OF listed astKeys firstA, of state policy backupIdCounter]
  obtain withoutAst where
    phase1: "deleteAstNodes policy state backupIdCounter (rev (sort ?A)) = Inr withoutAst"
    and collection1: "nodeIdMapCollection withoutAst = withoutIds (set ?A) collection"
    and counter1: "idCounter withoutAst = idCounter state"
    using start by (auto simp: withoutIds_empty)
  have firstC: "childrenFirst collection (set ?A) (rev (sort ?C))"
  proof (rule childrenFirst_descending)
    show "sorted (rev (rev (sort ?C)))" by simp
    show "distinct (rev (sort ?C))" using distinctC by simp
    show "set (rev (sort ?C)) \<inter> set ?A = {}" using setA setC disjoint by auto
    show "\<forall>n \<in> set (rev (sort ?C)). \<forall>c \<in> set (childIdsOf collection n).
            c \<in> set ?A \<or> (c \<in> set (rev (sort ?C)) \<and> n < c)"
    proof (intro ballI)
      fix n c
      assume n: "n \<in> set (rev (sort ?C))" and c: "c \<in> set (childIdsOf collection n)"
      from n setC have above: "backupIdCounter < n" by simp
      note child = wellFormed_child [OF wf c]
      from child(1) above have "backupIdCounter < c" by simp
      with child(1,2) setA setC
      show "c \<in> set ?A \<or> (c \<in> set (rev (sort ?C)) \<and> n < c)"
        by auto
    qed
  qed
  have contextKeys:
    "\<forall>n \<in> set (rev (sort ?C)). n \<in> set (mapKeys (contextNodeById collection))"
    using setC by simp
  from deleteContextNodes_childrenFirst [OF listed contextKeys firstC collection1, of policy]
  obtain withoutContexts where
    phase2: "deleteContextNodes policy withoutAst (rev (sort ?C)) = Inr withoutContexts"
    and collection2: "nodeIdMapCollection withoutContexts =
                        withoutIds (set ?A \<union> set (rev (sort ?C))) collection"
    and counter2: "idCounter withoutContexts = idCounter withoutAst"
    by auto
  have "withoutIds (set ?A \<union> set (rev (sort ?C))) collection =
          withoutIds {nodeId. backupIdCounter < nodeId} collection"
    using setA setC by (intro withoutIds_nodes [OF wf]) auto
  with phase1 phase2 collection2 counter1 counter2 show ?thesis by simp
qed


lemma applyFastStateBackup_wellFormed:
  assumes "wellFormed (nodeIdMapCollection (contextState state))"
    and "case maybeContextNodeId backup of
           None \<Rightarrow> True
         | Some nodeId \<Rightarrow>
             nodeId = 0
             \<or> (nodeId \<le> contextStateIdCounter backup
                 \<and> nodeId \<in> set (mapKeys (contextNodeById
                                              (nodeIdMapCollection (contextState state)))))"
  shows "\<exists>state'.
           applyFastStateBackup policy state backup = Inr state'
         \<and> tokenIndex state' = backupTokenIndex backup
         \<and> idCounter (contextState state') = contextStateIdCounter backup
         \<and> nodeIdMapCollection (contextState state') =
             withoutIds {nodeId. contextStateIdCounter backup < nodeId}
               (nodeIdMapCollection (contextState state))
         \<and> maybeCurrentContextNode state' =
             (case maybeContextNodeId backup of
                None \<Rightarrow> None
              | Some nodeId \<Rightarrow>
                  if nodeId = 0 then None
                  else mapGet (contextNodeById (nodeIdMapCollection (contextState state')))
                         nodeId)"
proof -
  let ?collection = "nodeIdMapCollection (contextState state)"
  let ?counter = "contextStateIdCounter backup"
  let ?counted = "(contextState state)\<lparr>idCounter := ?counter\<rparr>"
  have start: "nodeIdMapCollection ?counted = ?collection" by simp
  from rollback_collection [OF assms(1) start, of policy ?counter]
  obtain withoutAst withoutContexts where
    phase1: "deleteAstNodes policy ?counted ?counter
               (rev (sort (newAstNodeIds ?collection ?counter))) = Inr withoutAst"
    and phase2: "deleteContextNodes policy withoutAst
               (rev (sort (newContextNodeIds ?collection ?counter))) = Inr withoutContexts"
    and result: "nodeIdMapCollection withoutContexts =
                   withoutIds {nodeId. ?counter < nodeId} ?collection"
    and counter: "idCounter withoutContexts = ?counter"
    by auto
  show ?thesis
  proof (cases "case maybeContextNodeId backup of
                  None \<Rightarrow> None
                | Some nodeId \<Rightarrow> if nodeId = 0 then None else Some nodeId")
    case None
    with phase1 phase2 result counter show ?thesis
      by (auto simp: applyFastStateBackup_def Let_def split: option.splits if_splits)
  next
    case (Some nodeId)
    then have named: "maybeContextNodeId backup = Some nodeId" and "nodeId \<noteq> 0"
      by (auto split: option.splits if_splits)
    with assms(2) have kept: "nodeId \<notin> {nodeId. ?counter < nodeId}"
      and isOpen: "nodeId \<in> set (mapKeys (contextNodeById ?collection))"
      by auto
    from mapGet_filter_key [OF isOpen kept] result
    obtain contextNode where
      "mapGet (contextNodeById (nodeIdMapCollection withoutContexts)) nodeId = Some contextNode"
      by (auto simp: withoutIds_def)
    with Some named \<open>nodeId \<noteq> 0\<close> phase1 phase2 result counter show ?thesis
      by (simp add: applyFastStateBackup_def Let_def)
  qed
qed


lemma mapKeys_mapReplace: "mapKeys (mapReplace m k v) = mapKeys m"
  by (induction m) (auto simp: mapKeys_def mapReplace_def)

lemma set_mapReplace: "entry \<in> set (mapReplace m k v) \<Longrightarrow> entry \<in> set m \<or> entry = (k, v)"
  by (auto simp: mapReplace_def split: if_splits)

lemma set_mapSet: "entry \<in> set (mapSet m k v) \<Longrightarrow> entry \<in> set m \<or> entry = (k, v)"
  by (induction m) (auto split: if_splits)

lemma set_mapKeys_mapSet: "set (mapKeys (mapSet m k v)) = insert k (set (mapKeys m))"
  using keys_mapSet [of m k v] by (simp add: mapKeys_def)

lemma distinct_mapKeys_mapSet: "distinct (mapKeys m) \<Longrightarrow> distinct (mapKeys (mapSet m k v))"
  by (simp add: mapKeys_def distinct_mapSet)

lemma set_mapKeys_mapDelete: "set (mapKeys (mapDelete m k)) = set (mapKeys m) - {k}"
  by (auto simp: mapKeys_def mapDelete_def)

lemma distinct_mapKeys_mapDelete: "distinct (mapKeys m) \<Longrightarrow> distinct (mapKeys (mapDelete m k))"
  by (simp add: mapKeys_def mapDelete_def distinct_map_filter)

lemma set_mapDelete: "entry \<in> set (mapDelete m k) \<longleftrightarrow> entry \<in> set m \<and> fst entry \<noteq> k"
  by (auto simp: mapDelete_def)

lemma mapGet_mapSet: "mapGet (mapSet m k v) k' = (if k' = k then Some v else mapGet m k')"
  by (simp add: mapGet_def map_of_mapSet)

lemma mapGet_mapDelete: "mapGet (mapDelete m k) k' = (if k' = k then None else mapGet m k')"
  by (induction m) (auto simp: mapGet_def mapDelete_def)

lemma mapGet_Some_set: "mapGet m k = Some v \<Longrightarrow> (k, v) \<in> set m"
  by (simp add: mapGet_def map_of_SomeD)

lemma mapGet_None_iff: "mapGet m k = None \<longleftrightarrow> k \<notin> set (mapKeys m)"
  by (simp add: mapGet_def mapKeys_def map_of_eq_None_iff)

lemma wellFormed_intro:
  assumes "distinct (mapKeys (astNodeById c))"
    and "distinct (mapKeys (contextNodeById c))"
    and "set (mapKeys (astNodeById c)) \<inter> set (mapKeys (contextNodeById c)) = {}"
    and "\<And>k p. (k, p) \<in> set (parentIdById c) \<Longrightarrow>
           p < k
           \<and> k \<in> set (mapKeys (astNodeById c)) \<union> set (mapKeys (contextNodeById c))
           \<and> (k \<in> set (mapKeys (contextNodeById c)) \<longrightarrow> p \<in> set (mapKeys (contextNodeById c)))"
    and "\<And>owner cs. (owner, cs) \<in> set (childIdsById c) \<Longrightarrow>
           owner \<in> set (mapKeys (astNodeById c)) \<union> set (mapKeys (contextNodeById c))
           \<and> (\<forall>x \<in> set cs. mapGet (parentIdById c) x = Some owner)"
  shows "wellFormed c"
  unfolding wellFormed_def
proof (intro conjI ballI)
  fix entry assume "entry \<in> set (parentIdById c)"
  then have "(fst entry, snd entry) \<in> set (parentIdById c)" by simp
  from assms(4) [OF this]
  show "snd entry < fst entry"
    "fst entry \<in> set (mapKeys (astNodeById c)) \<union> set (mapKeys (contextNodeById c))"
    "fst entry \<in> set (mapKeys (contextNodeById c)) \<longrightarrow>
       snd entry \<in> set (mapKeys (contextNodeById c))"
    by simp_all
next
  fix entry assume "entry \<in> set (childIdsById c)"
  then have "(fst entry, snd entry) \<in> set (childIdsById c)" by simp
  from assms(5) [OF this]
  show "fst entry \<in> set (mapKeys (astNodeById c)) \<union> set (mapKeys (contextNodeById c))"
    and "\<And>x. x \<in> set (snd entry) \<Longrightarrow> mapGet (parentIdById c) x = Some (fst entry)"
    by simp_all
qed (use assms(1-3) in simp_all)

lemma wellFormed_parent:
  assumes "wellFormed c" and "(k, p) \<in> set (parentIdById c)"
  shows "p < k"
    and "k \<in> set (mapKeys (astNodeById c)) \<union> set (mapKeys (contextNodeById c))"
    and "k \<in> set (mapKeys (contextNodeById c)) \<Longrightarrow> p \<in> set (mapKeys (contextNodeById c))"
  using assms unfolding wellFormed_def by fastforce+

lemma wellFormed_owner:
  assumes "wellFormed c" and "(owner, cs) \<in> set (childIdsById c)"
  shows "owner \<in> set (mapKeys (astNodeById c)) \<union> set (mapKeys (contextNodeById c))"
    and "x \<in> set cs \<Longrightarrow> mapGet (parentIdById c) x = Some owner"
  using assms unfolding wellFormed_def by fastforce+

lemma wellFormed_keys:
  assumes "wellFormed c"
  shows "distinct (mapKeys (astNodeById c))" "distinct (mapKeys (contextNodeById c))"
    "set (mapKeys (astNodeById c)) \<inter> set (mapKeys (contextNodeById c)) = {}"
  using assms unfolding wellFormed_def by simp_all

lemma childIdsOf_parent:
  assumes "wellFormed c" and "x \<in> set (childIdsOf c n)"
  shows "mapGet (parentIdById c) x = Some n"
proof -
  from childIdsOf_listed [OF assms(2)] obtain entry where
    "entry \<in> set (childIdsById c)" "fst entry = n" "x \<in> set (snd entry)" by blast
  then have "(n, snd entry) \<in> set (childIdsById c)" by auto
  from wellFormed_owner(2) [OF assms(1) this \<open>x \<in> set (snd entry)\<close>] show ?thesis .
qed

lemma consistent_bound:
  assumes "consistent state"
    and "k \<in> set (mapKeys (astNodeById (nodeIdMapCollection (contextState state))))
             \<union> set (mapKeys (contextNodeById (nodeIdMapCollection (contextState state))))"
  shows "0 < k" and "k \<le> idCounter (contextState state)"
  using assms unfolding consistent_def by blast+

lemma consistent_wellFormed:
  "consistent state \<Longrightarrow> wellFormed (nodeIdMapCollection (contextState state))"
  by (simp add: consistent_def)

lemma consistent_current:
  assumes "consistent state" and "maybeCurrentContextNode state = Some node"
  shows "contextId node
           \<in> set (mapKeys (contextNodeById (nodeIdMapCollection (contextState state))))"
  using assms unfolding consistent_def by simp

lemma consistent_stored:
  assumes "consistent state"
    and "mapGet (contextNodeById (nodeIdMapCollection (contextState state))) k = Some node"
  shows "contextId node = k"
proof -
  from assms(2) have "(k, node) \<in> set (contextNodeById (nodeIdMapCollection (contextState state)))"
    by (rule mapGet_Some_set)
  with assms(1) show ?thesis unfolding consistent_def by fastforce
qed

text \<open>The id map after startContext.\<close>

lemma startContext_None:
  assumes "maybeCurrentContextNode state = None"
  shows "startContext state nodeKind =
     state\<lparr>contextState :=
        (contextState state)
          \<lparr>idCounter := idCounter (contextState state) + 1,
           nodeIdMapCollection :=
             (nodeIdMapCollection (contextState state))
               \<lparr>contextNodeById :=
                  mapSet (contextNodeById (nodeIdMapCollection (contextState state)))
                    (idCounter (contextState state) + 1)
                    \<lparr>contextId = idCounter (contextState state) + 1, contextKind = nodeKind,
                     contextMaybeAttributeIndex = None, attributeCounter = 0,
                     maybeParentId = None\<rparr>\<rparr>\<rparr>,
       maybeCurrentContextNode :=
         Some \<lparr>contextId = idCounter (contextState state) + 1, contextKind = nodeKind,
               contextMaybeAttributeIndex = None, attributeCounter = 0,
               maybeParentId = None\<rparr>\<rparr>"
  using assms by (simp add: startContext_def ParseContextUtils_startContext_def Let_def)

lemma startContext_Some:
  assumes "maybeCurrentContextNode state = Some parentNode"
  shows "startContext state nodeKind =
     state\<lparr>contextState :=
        (contextState state)
          \<lparr>idCounter := idCounter (contextState state) + 1,
           nodeIdMapCollection :=
             (nodeIdMapCollection (contextState state))
               \<lparr>contextNodeById :=
                  mapSet
                    (mapReplace (contextNodeById (nodeIdMapCollection (contextState state)))
                       (contextId parentNode)
                       (parentNode\<lparr>attributeCounter := attributeCounter parentNode + 1\<rparr>))
                    (idCounter (contextState state) + 1)
                    \<lparr>contextId = idCounter (contextState state) + 1, contextKind = nodeKind,
                     contextMaybeAttributeIndex = Some (attributeCounter parentNode),
                     attributeCounter = 0,
                     maybeParentId = Some (contextId parentNode)\<rparr>,
                parentIdById :=
                  mapSet (parentIdById (nodeIdMapCollection (contextState state)))
                    (idCounter (contextState state) + 1) (contextId parentNode),
                childIdsById :=
                  mapSet (childIdsById (nodeIdMapCollection (contextState state)))
                    (contextId parentNode)
                    (childIdsOf (nodeIdMapCollection (contextState state)) (contextId parentNode)
                       @ [idCounter (contextState state) + 1])\<rparr>\<rparr>,
       maybeCurrentContextNode :=
         Some \<lparr>contextId = idCounter (contextState state) + 1, contextKind = nodeKind,
               contextMaybeAttributeIndex = Some (attributeCounter parentNode),
               attributeCounter = 0,
               maybeParentId = Some (contextId parentNode)\<rparr>\<rparr>"
  using assms by (simp add: startContext_def ParseContextUtils_startContext_def Let_def)

lemma extends_consistent: "extends earlier state \<Longrightarrow> consistent state"
  by (simp add: extends_def)

lemma startContext_extends:
  assumes ext: "extends earlier state"
  shows "extends earlier (startContext state nodeKind)
       \<and> currentId (startContext state nodeKind) = Some (idCounter (contextState state) + 1)
       \<and> idCounter (contextState (startContext state nodeKind))
           = idCounter (contextState state) + 1
       \<and> set (mapKeys (contextNodeById
                          (nodeIdMapCollection (contextState (startContext state nodeKind)))))
           = insert (idCounter (contextState state) + 1)
               (set (mapKeys (contextNodeById (nodeIdMapCollection (contextState state)))))
       \<and> mapGet (parentIdById (nodeIdMapCollection (contextState (startContext state nodeKind))))
             (idCounter (contextState state) + 1) = currentId state"
proof -
  define c where "c = nodeIdMapCollection (contextState state)"
  define n where "n = idCounter (contextState state) + 1"
  define m where "m = idCounter (contextState earlier)"
  define c0 where "c0 = nodeIdMapCollection (contextState earlier)"
  from ext have cons: "consistent state" by (rule extends_consistent)
  then have wf: "wellFormed c" by (simp add: consistent_wellFormed c_def)
  from ext have le: "m < n" and unchanged: "unchangedUpTo m c0 c"
    by (simp_all add: extends_def m_def n_def c_def c0_def)
  have bound: "0 < k \<and> k < n"
    if "k \<in> set (mapKeys (astNodeById c)) \<union> set (mapKeys (contextNodeById c))" for k
    using consistent_bound [OF cons, of k] that by (simp add: c_def n_def)
  have fresh: "n \<notin> set (mapKeys (astNodeById c))" "n \<notin> set (mapKeys (contextNodeById c))"
    using bound [of n] by auto
  have stored: "contextId (snd entry) = fst entry" if "entry \<in> set (contextNodeById c)" for entry
    using cons that unfolding consistent_def c_def by blast
  have parent_key: "k < n" if "(k, q) \<in> set (parentIdById c)" for k q
    using wellFormed_parent(2) [OF wf that] bound by blast
  have parent_fresh: "mapGet (parentIdById c) n = None"
  proof (cases "mapGet (parentIdById c) n")
    case (Some q)
    from parent_key [OF mapGet_Some_set [OF this]] show ?thesis by simp
  qed simp
  show ?thesis
  proof (cases "maybeCurrentContextNode state")
    case None
    define node where
      "node = \<lparr>contextId = n, contextKind = nodeKind, contextMaybeAttributeIndex = None,
                attributeCounter = 0, maybeParentId = None\<rparr>"
    define c' where "c' = c\<lparr>contextNodeById := mapSet (contextNodeById c) n node\<rparr>"
    have after: "startContext state nodeKind =
                   state\<lparr>contextState :=
                            (contextState state)\<lparr>idCounter := n, nodeIdMapCollection := c'\<rparr>,
                         maybeCurrentContextNode := Some node\<rparr>"
      by (simp add: startContext_None [OF None] c'_def c_def n_def node_def)
    have wf': "wellFormed c'"
    proof (rule wellFormed_intro)
      show "distinct (mapKeys (astNodeById c'))"
        using wellFormed_keys(1) [OF wf] by (simp add: c'_def)
      show "distinct (mapKeys (contextNodeById c'))"
        using wellFormed_keys(2) [OF wf] by (simp add: c'_def distinct_mapKeys_mapSet)
      show "set (mapKeys (astNodeById c')) \<inter> set (mapKeys (contextNodeById c')) = {}"
        using wellFormed_keys(3) [OF wf] fresh by (simp add: c'_def set_mapKeys_mapSet)
    next
      fix k q assume "(k, q) \<in> set (parentIdById c')"
      then have old: "(k, q) \<in> set (parentIdById c)" by (simp add: c'_def)
      from wellFormed_parent [OF wf old]
      show "q < k
           \<and> k \<in> set (mapKeys (astNodeById c')) \<union> set (mapKeys (contextNodeById c'))
           \<and> (k \<in> set (mapKeys (contextNodeById c')) \<longrightarrow>
                q \<in> set (mapKeys (contextNodeById c')))"
        using parent_key [OF old] by (auto simp: c'_def set_mapKeys_mapSet)
    next
      fix owner cs assume "(owner, cs) \<in> set (childIdsById c')"
      then have old: "(owner, cs) \<in> set (childIdsById c)" by (simp add: c'_def)
      from wellFormed_owner [OF wf old]
      show "owner \<in> set (mapKeys (astNodeById c')) \<union> set (mapKeys (contextNodeById c'))
           \<and> (\<forall>x \<in> set cs. mapGet (parentIdById c') x = Some owner)"
        by (auto simp: c'_def set_mapKeys_mapSet)
    qed
    have cons': "consistent (startContext state nodeKind)"
      unfolding consistent_def after
    proof (intro conjI ballI)
      show "wellFormed (nodeIdMapCollection (contextState
              (state\<lparr>contextState :=
                        (contextState state)\<lparr>idCounter := n, nodeIdMapCollection := c'\<rparr>,
                     maybeCurrentContextNode := Some node\<rparr>)))"
        using wf' by simp
    next
      fix k assume "k \<in> set (mapKeys (astNodeById (nodeIdMapCollection (contextState
              (state\<lparr>contextState :=
                        (contextState state)\<lparr>idCounter := n, nodeIdMapCollection := c'\<rparr>,
                     maybeCurrentContextNode := Some node\<rparr>)))))
            \<union> set (mapKeys (contextNodeById (nodeIdMapCollection (contextState
              (state\<lparr>contextState :=
                        (contextState state)\<lparr>idCounter := n, nodeIdMapCollection := c'\<rparr>,
                     maybeCurrentContextNode := Some node\<rparr>)))))"
      then have "k = n \<or> k \<in> set (mapKeys (astNodeById c)) \<union> set (mapKeys (contextNodeById c))"
        by (auto simp: c'_def set_mapKeys_mapSet)
      with bound [of k] have "0 < k \<and> k \<le> n" by (auto simp: n_def)
      then show "0 < k" and "k \<le> idCounter (contextState
              (state\<lparr>contextState :=
                        (contextState state)\<lparr>idCounter := n, nodeIdMapCollection := c'\<rparr>,
                     maybeCurrentContextNode := Some node\<rparr>))"
        by simp_all
    next
      fix entry assume "entry \<in> set (contextNodeById (nodeIdMapCollection (contextState
              (state\<lparr>contextState :=
                        (contextState state)\<lparr>idCounter := n, nodeIdMapCollection := c'\<rparr>,
                     maybeCurrentContextNode := Some node\<rparr>))))"
      then have "entry \<in> set (mapSet (contextNodeById c) n node)" by (simp add: c'_def)
      from set_mapSet [OF this] stored [of entry]
      show "contextId (snd entry) = fst entry" by (auto simp: node_def)
    next
      show "case maybeCurrentContextNode
                  (state\<lparr>contextState :=
                        (contextState state)\<lparr>idCounter := n, nodeIdMapCollection := c'\<rparr>,
                     maybeCurrentContextNode := Some node\<rparr>) of
              None \<Rightarrow> True
            | Some currentContextNode \<Rightarrow>
                contextId currentContextNode
                  \<in> set (mapKeys (contextNodeById (nodeIdMapCollection (contextState
                       (state\<lparr>contextState :=
                        (contextState state)\<lparr>idCounter := n, nodeIdMapCollection := c'\<rparr>,
                     maybeCurrentContextNode := Some node\<rparr>)))))"
        by (simp add: c'_def set_mapKeys_mapSet node_def)
    qed
    have children: "childIdsOf c' k = childIdsOf c k" for k
      by (simp add: childIdsOf_def c'_def)
    have unchanged': "unchangedUpTo m c0 c'"
      using unchanged le unfolding unchangedUpTo_def children
      by (auto simp: c'_def set_mapKeys_mapSet)
    have "extends earlier (startContext state nodeKind)"
      unfolding extends_def
      using cons' unchanged' le
      by (simp add: after m_def c0_def n_def)
    moreover have "currentId (startContext state nodeKind) = Some n"
      by (simp add: after currentId_def node_def)
    moreover have "mapGet (parentIdById (nodeIdMapCollection (contextState
                      (startContext state nodeKind)))) n = currentId state"
      using parent_fresh None by (simp add: after c'_def currentId_def)
    moreover have "idCounter (contextState (startContext state nodeKind)) = n"
      by (simp add: after)
    moreover have "set (mapKeys (contextNodeById
                          (nodeIdMapCollection (contextState (startContext state nodeKind)))))
                     = insert n (set (mapKeys (contextNodeById c)))"
      by (simp add: after c'_def set_mapKeys_mapSet)
    ultimately show ?thesis
      unfolding n_def c_def by blast
  next
    case (Some parentNode)
    define p where "p = contextId parentNode"
    define node where
      "node = \<lparr>contextId = n, contextKind = nodeKind,
                contextMaybeAttributeIndex = Some (attributeCounter parentNode),
                attributeCounter = 0, maybeParentId = Some p\<rparr>"
    define c' where
      "c' = c\<lparr>contextNodeById :=
                  mapSet (mapReplace (contextNodeById c) p
                            (parentNode\<lparr>attributeCounter := attributeCounter parentNode + 1\<rparr>))
                    n node,
                parentIdById := mapSet (parentIdById c) n p,
                childIdsById := mapSet (childIdsById c) p (childIdsOf c p @ [n])\<rparr>"
    have after: "startContext state nodeKind =
                   state\<lparr>contextState :=
                            (contextState state)\<lparr>idCounter := n, nodeIdMapCollection := c'\<rparr>,
                         maybeCurrentContextNode := Some node\<rparr>"
      by (simp add: startContext_Some [OF Some] c'_def c_def n_def node_def p_def)
    have p_open: "p \<in> set (mapKeys (contextNodeById c))"
      using consistent_current [OF cons Some] by (simp add: p_def c_def)
    from bound [of p] p_open have p_less: "p < n" by simp
    have keys': "set (mapKeys (contextNodeById c')) = insert n (set (mapKeys (contextNodeById c)))"
      by (simp add: c'_def set_mapKeys_mapSet mapKeys_mapReplace)
    have parent': "mapGet (parentIdById c') k = (if k = n then Some p else mapGet (parentIdById c) k)"
      for k
      by (simp add: c'_def mapGet_mapSet)
    have wf': "wellFormed c'"
    proof (rule wellFormed_intro)
      show "distinct (mapKeys (astNodeById c'))"
        using wellFormed_keys(1) [OF wf] by (simp add: c'_def)
      show "distinct (mapKeys (contextNodeById c'))"
        using wellFormed_keys(2) [OF wf]
        by (simp add: c'_def distinct_mapKeys_mapSet mapKeys_mapReplace)
      show "set (mapKeys (astNodeById c')) \<inter> set (mapKeys (contextNodeById c')) = {}"
        using wellFormed_keys(3) [OF wf] fresh unfolding keys' by (simp add: c'_def)
    next
      fix k q assume "(k, q) \<in> set (parentIdById c')"
      then have "(k, q) \<in> set (mapSet (parentIdById c) n p)" by (simp add: c'_def)
      from set_mapSet [OF this]
      show "q < k
           \<and> k \<in> set (mapKeys (astNodeById c')) \<union> set (mapKeys (contextNodeById c'))
           \<and> (k \<in> set (mapKeys (contextNodeById c')) \<longrightarrow>
                q \<in> set (mapKeys (contextNodeById c')))"
      proof
        assume old: "(k, q) \<in> set (parentIdById c)"
        from wellFormed_parent [OF wf old] parent_key [OF old] show ?thesis
          unfolding keys' by (auto simp: c'_def)
      next
        assume "(k, q) = (n, p)"
        with p_less p_open show ?thesis unfolding keys' by simp
      qed
    next
      fix owner cs assume "(owner, cs) \<in> set (childIdsById c')"
      then have "(owner, cs) \<in> set (mapSet (childIdsById c) p (childIdsOf c p @ [n]))"
        by (simp add: c'_def)
      from set_mapSet [OF this]
      show "owner \<in> set (mapKeys (astNodeById c')) \<union> set (mapKeys (contextNodeById c'))
           \<and> (\<forall>x \<in> set cs. mapGet (parentIdById c') x = Some owner)"
      proof
        assume old: "(owner, cs) \<in> set (childIdsById c)"
        have "mapGet (parentIdById c') x = Some owner" if "x \<in> set cs" for x
        proof -
          from wellFormed_owner(2) [OF wf old that]
          have was: "mapGet (parentIdById c) x = Some owner" .
          from parent_key [OF mapGet_Some_set [OF was]] have "x \<noteq> n" by simp
          with was show ?thesis by (simp add: parent')
        qed
        with wellFormed_owner(1) [OF wf old] show ?thesis
          unfolding keys' by (auto simp: c'_def)
      next
        assume new: "(owner, cs) = (p, childIdsOf c p @ [n])"
        have "mapGet (parentIdById c') x = Some p" if "x \<in> set (childIdsOf c p @ [n])" for x
        proof (cases "x = n")
          case True
          then show ?thesis by (simp add: parent')
        next
          case False
          with that have "x \<in> set (childIdsOf c p)" by simp
          from childIdsOf_parent [OF wf this] False show ?thesis by (simp add: parent')
        qed
        with new p_open show ?thesis unfolding keys' by auto
      qed
    qed
    have cons': "consistent (startContext state nodeKind)"
      unfolding consistent_def after
    proof (intro conjI ballI)
      show "wellFormed (nodeIdMapCollection (contextState
              (state\<lparr>contextState :=
                        (contextState state)\<lparr>idCounter := n, nodeIdMapCollection := c'\<rparr>,
                     maybeCurrentContextNode := Some node\<rparr>)))"
        using wf' by simp
    next
      fix k assume "k \<in> set (mapKeys (astNodeById (nodeIdMapCollection (contextState
              (state\<lparr>contextState :=
                        (contextState state)\<lparr>idCounter := n, nodeIdMapCollection := c'\<rparr>,
                     maybeCurrentContextNode := Some node\<rparr>)))))
            \<union> set (mapKeys (contextNodeById (nodeIdMapCollection (contextState
              (state\<lparr>contextState :=
                        (contextState state)\<lparr>idCounter := n, nodeIdMapCollection := c'\<rparr>,
                     maybeCurrentContextNode := Some node\<rparr>)))))"
      then have "k = n \<or> k \<in> set (mapKeys (astNodeById c)) \<union> set (mapKeys (contextNodeById c))"
        using keys' by (auto simp: c'_def)
      with bound [of k] have "0 < k \<and> k \<le> n" by (auto simp: n_def)
      then show "0 < k" and "k \<le> idCounter (contextState
              (state\<lparr>contextState :=
                        (contextState state)\<lparr>idCounter := n, nodeIdMapCollection := c'\<rparr>,
                     maybeCurrentContextNode := Some node\<rparr>))"
        by simp_all
    next
      fix entry assume "entry \<in> set (contextNodeById (nodeIdMapCollection (contextState
              (state\<lparr>contextState :=
                        (contextState state)\<lparr>idCounter := n, nodeIdMapCollection := c'\<rparr>,
                     maybeCurrentContextNode := Some node\<rparr>))))"
      then have "entry \<in> set (mapSet (mapReplace (contextNodeById c) p
                            (parentNode\<lparr>attributeCounter := attributeCounter parentNode + 1\<rparr>))
                    n node)" by (simp add: c'_def)
      from set_mapSet [OF this]
      show "contextId (snd entry) = fst entry"
      proof
        assume "entry \<in> set (mapReplace (contextNodeById c) p
                            (parentNode\<lparr>attributeCounter := attributeCounter parentNode + 1\<rparr>))"
        from set_mapReplace [OF this] stored [of entry] show ?thesis
          by (auto simp: p_def)
      next
        assume "entry = (n, node)"
        then show ?thesis by (simp add: node_def)
      qed
    next
      show "case maybeCurrentContextNode
                  (state\<lparr>contextState :=
                        (contextState state)\<lparr>idCounter := n, nodeIdMapCollection := c'\<rparr>,
                     maybeCurrentContextNode := Some node\<rparr>) of
              None \<Rightarrow> True
            | Some currentContextNode \<Rightarrow>
                contextId currentContextNode
                  \<in> set (mapKeys (contextNodeById (nodeIdMapCollection (contextState
                       (state\<lparr>contextState :=
                        (contextState state)\<lparr>idCounter := n, nodeIdMapCollection := c'\<rparr>,
                     maybeCurrentContextNode := Some node\<rparr>)))))"
        using keys' by (simp add: node_def)
    qed
    have children: "childIdsOf c' k = (if k = p then childIdsOf c p @ [n] else childIdsOf c k)"
      for k
      by (simp add: childIdsOf_def c'_def mapGet_mapSet)
    have unchanged': "unchangedUpTo m c0 c'"
      using unchanged le unfolding unchangedUpTo_def children keys'
      by (auto simp: c'_def map_of_mapSet)
    have "extends earlier (startContext state nodeKind)"
      unfolding extends_def
      using cons' unchanged' le
      by (simp add: after m_def c0_def n_def)
    moreover have "currentId (startContext state nodeKind) = Some n"
      by (simp add: after currentId_def node_def)
    moreover have "mapGet (parentIdById (nodeIdMapCollection (contextState
                      (startContext state nodeKind)))) n = currentId state"
      using Some by (simp add: after parent' currentId_def p_def)
    moreover have "idCounter (contextState (startContext state nodeKind)) = n"
      by (simp add: after)
    moreover have "set (mapKeys (contextNodeById
                          (nodeIdMapCollection (contextState (startContext state nodeKind)))))
                     = insert n (set (mapKeys (contextNodeById c)))"
      using keys' by (simp add: after)
    ultimately show ?thesis
      unfolding n_def c_def by blast
  qed
qed

lemma readToken_extends:
  assumes "extends earlier state" and "readToken state = Inr state'"
  shows "extends earlier state' \<and> currentId state' = currentId state
       \<and> contextState state' = contextState state"
proof -
  from assms(2) have "contextState state' = contextState state"
    and "maybeCurrentContextNode state' = maybeCurrentContextNode state"
    by (auto simp: readToken_def Let_def split: if_splits)
  with assms(1) show ?thesis
    by (auto simp: extends_def consistent_def currentId_def split: option.splits)
qed

lemma wellFormed_contexts:
  "mapKeys m = mapKeys (contextNodeById c) \<Longrightarrow>
   wellFormed (c\<lparr>contextNodeById := m\<rparr>) = wellFormed c"
  by (simp add: wellFormed_def)

lemma unchangedUpTo_contexts:
  "mapKeys m = mapKeys (contextNodeById c) \<Longrightarrow>
   unchangedUpTo n earlier (c\<lparr>contextNodeById := m\<rparr>) = unchangedUpTo n earlier c"
  by (simp add: unchangedUpTo_def childIdsOf_def)

lemma incrementAttributeCounter_extends:
  assumes "extends earlier state" and "incrementAttributeCounter state = Inr state'"
  shows "extends earlier state' \<and> currentId state' = currentId state
       \<and> set (mapKeys (contextNodeById (nodeIdMapCollection (contextState state'))))
           = set (mapKeys (contextNodeById (nodeIdMapCollection (contextState state))))"
proof -
  define c where "c = nodeIdMapCollection (contextState state)"
  from assms(2) obtain node where current: "maybeCurrentContextNode state = Some node"
    by (auto simp: incrementAttributeCounter_def split: option.splits)
  define advanced where "advanced = node\<lparr>attributeCounter := attributeCounter node + 1\<rparr>"
  define m where "m = mapReplace (contextNodeById c) (contextId node) advanced"
  from assms(2) current
  have after: "state' = state\<lparr>contextState :=
                                (contextState state)
                                  \<lparr>nodeIdMapCollection := c\<lparr>contextNodeById := m\<rparr>\<rparr>,
                             maybeCurrentContextNode := Some advanced\<rparr>"
    by (auto simp: incrementAttributeCounter_def Let_def c_def m_def advanced_def)
  have keys: "mapKeys m = mapKeys (contextNodeById c)"
    by (simp add: m_def mapKeys_mapReplace)
  from assms(1) have cons: "consistent state" by (rule extends_consistent)
  have stored: "contextId (snd entry) = fst entry" if "entry \<in> set m" for entry
  proof -
    from that have "entry \<in> set (contextNodeById c) \<or> entry = (contextId node, advanced)"
      unfolding m_def by (rule set_mapReplace)
    with cons show ?thesis
      unfolding consistent_def c_def by (auto simp: advanced_def)
  qed
  have "consistent state'"
    using cons current stored unfolding consistent_def after
    by (simp add: wellFormed_contexts [OF keys] keys c_def [symmetric] advanced_def)
  with assms(1) show ?thesis
    unfolding extends_def
    by (simp add: after unchangedUpTo_contexts [OF keys] keys c_def [symmetric]
          currentId_def current advanced_def)
qed

lemma endContext_extends:
  assumes ext: "extends earlier state"
    and current: "maybeCurrentContextNode state = Some node"
    and new: "idCounter (contextState earlier) < contextId node"
    and top: "\<forall>k \<in> set (mapKeys (contextNodeById (nodeIdMapCollection (contextState state)))).
                k \<le> contextId node"
    and ended: "endContext state astNode = Inr state'"
  shows "extends earlier state'
       \<and> set (mapKeys (contextNodeById (nodeIdMapCollection (contextState state'))))
           = set (mapKeys (contextNodeById (nodeIdMapCollection (contextState state))))
               - {contextId node}
       \<and> currentId state'
           = mapGet (parentIdById (nodeIdMapCollection (contextState state))) (contextId node)"
proof -
  define c where "c = nodeIdMapCollection (contextState state)"
  define i where "i = contextId node"
  define m where "m = idCounter (contextState earlier)"
  define c0 where "c0 = nodeIdMapCollection (contextState earlier)"
  define c' where "c' = c\<lparr>astNodeById := mapSet (astNodeById c) i astNode,
                              contextNodeById := mapDelete (contextNodeById c) i\<rparr>"
  define leaves where
    "leaves = (if isTerminalKind (astKind astNode)
               then leafNodeIds (contextState state) @ [i]
               else leafNodeIds (contextState state))"
  define next_current where
    "next_current = (case mapGet (parentIdById c) i of
                       None \<Rightarrow> None
                     | Some parentId \<Rightarrow> mapGet (contextNodeById c') parentId)"
  from ended current
  have ok: "mapGet (contextNodeById c) i \<noteq> None" "astKind astNode = contextKind node"
    by (auto simp: endContext_def ParseContextUtils_endContext_def Let_def c_def i_def
          split: if_splits)
  have "endContext state astNode =
          Inr (state\<lparr>contextState :=
                       (contextState state)
                         \<lparr>nodeIdMapCollection := c', leafNodeIds := leaves\<rparr>,
                     maybeCurrentContextNode := next_current\<rparr>)"
    using current ok
    unfolding endContext_def ParseContextUtils_endContext_def Let_def c_def i_def c'_def
      leaves_def next_current_def
    by simp
  with ended
  have after: "state' = state\<lparr>contextState :=
                                (contextState state)
                                  \<lparr>nodeIdMapCollection := c', leafNodeIds := leaves\<rparr>,
                             maybeCurrentContextNode := next_current\<rparr>"
    by simp
  from ext have cons: "consistent state" by (rule extends_consistent)
  then have wf: "wellFormed c" by (simp add: consistent_wellFormed c_def)
  from ext have le: "m \<le> idCounter (contextState state)" and unchanged: "unchangedUpTo m c0 c"
    by (simp_all add: extends_def m_def c_def c0_def)
  from new have i_new: "m < i" by (simp add: m_def i_def)
  have i_open: "i \<in> set (mapKeys (contextNodeById c))"
    using consistent_current [OF cons current] by (simp add: i_def c_def)
  with wellFormed_keys(3) [OF wf] have i_not_ast: "i \<notin> set (mapKeys (astNodeById c))" by auto
  have ast_keys': "set (mapKeys (astNodeById c')) = insert i (set (mapKeys (astNodeById c)))"
    by (simp add: c'_def set_mapKeys_mapSet)
  have ctx_keys': "set (mapKeys (contextNodeById c')) = set (mapKeys (contextNodeById c)) - {i}"
    by (simp add: c'_def set_mapKeys_mapDelete)
  have nodes': "set (mapKeys (astNodeById c')) \<union> set (mapKeys (contextNodeById c'))
                = set (mapKeys (astNodeById c)) \<union> set (mapKeys (contextNodeById c))"
    using i_open unfolding ast_keys' ctx_keys' by auto
  have parents': "parentIdById c' = parentIdById c" and children': "childIdsById c' = childIdsById c"
    by (simp_all add: c'_def)
  have wf': "wellFormed c'"
  proof (rule wellFormed_intro)
    show "distinct (mapKeys (astNodeById c'))"
      using wellFormed_keys(1) [OF wf] by (simp add: c'_def distinct_mapKeys_mapSet)
    show "distinct (mapKeys (contextNodeById c'))"
      using wellFormed_keys(2) [OF wf] by (simp add: c'_def distinct_mapKeys_mapDelete)
    show "set (mapKeys (astNodeById c')) \<inter> set (mapKeys (contextNodeById c')) = {}"
      using wellFormed_keys(3) [OF wf] unfolding ast_keys' ctx_keys' by auto
  next
    fix k q assume "(k, q) \<in> set (parentIdById c')"
    then have old: "(k, q) \<in> set (parentIdById c)" by (simp add: parents')
    note facts = wellFormed_parent [OF wf old]
    have "q \<in> set (mapKeys (contextNodeById c'))" if "k \<in> set (mapKeys (contextNodeById c'))"
    proof -
      from that have k: "k \<in> set (mapKeys (contextNodeById c))" and "k \<noteq> i"
        unfolding ctx_keys' by simp_all
      from top k have "k \<le> i" by (simp add: c_def i_def)
      with facts(1) have "q \<noteq> i" by simp
      with facts(3) [OF k] show ?thesis unfolding ctx_keys' by simp
    qed
    with facts(1,2) show "q < k
           \<and> k \<in> set (mapKeys (astNodeById c')) \<union> set (mapKeys (contextNodeById c'))
           \<and> (k \<in> set (mapKeys (contextNodeById c')) \<longrightarrow>
                q \<in> set (mapKeys (contextNodeById c')))"
      unfolding nodes' by simp
  next
    fix owner cs assume "(owner, cs) \<in> set (childIdsById c')"
    then have old: "(owner, cs) \<in> set (childIdsById c)" by (simp add: children')
    from wellFormed_owner [OF wf old]
    show "owner \<in> set (mapKeys (astNodeById c')) \<union> set (mapKeys (contextNodeById c'))
           \<and> (\<forall>x \<in> set cs. mapGet (parentIdById c') x = Some owner)"
      unfolding nodes' parents' by simp
  qed
  have stored': "contextId (snd entry) = fst entry" if "entry \<in> set (contextNodeById c')"
    for entry
  proof -
    from that have "entry \<in> set (contextNodeById c)" by (simp add: c'_def set_mapDelete)
    with cons show ?thesis unfolding consistent_def c_def by blast
  qed
  have next_id: "map_option contextId next_current = mapGet (parentIdById c) i"
    and next_open: "case next_current of
                      None \<Rightarrow> True
                    | Some n \<Rightarrow> contextId n \<in> set (mapKeys (contextNodeById c'))"
  proof -
    show "map_option contextId next_current = mapGet (parentIdById c) i"
    proof (cases "mapGet (parentIdById c) i")
      case None
      then show ?thesis by (simp add: next_current_def)
    next
      case (Some q)
      note facts = wellFormed_parent [OF wf mapGet_Some_set [OF Some]]
      from facts(1) facts(3) [OF i_open] have "q \<in> set (mapKeys (contextNodeById c'))"
        unfolding ctx_keys' by simp
      then obtain n where n: "mapGet (contextNodeById c') q = Some n"
        using mapGet_None_iff [of "contextNodeById c'" q] by auto
      from stored' [OF mapGet_Some_set [OF n]] have "contextId n = q" by simp
      with Some n show ?thesis by (simp add: next_current_def)
    qed
    show "case next_current of
            None \<Rightarrow> True
          | Some n \<Rightarrow> contextId n \<in> set (mapKeys (contextNodeById c'))"
    proof (cases next_current)
      case (Some n)
      then obtain q where "mapGet (contextNodeById c') q = Some n"
        by (auto simp: next_current_def split: option.splits)
      from mapGet_Some_set [OF this] stored' [of "(q, n)"]
      have "(contextId n, n) \<in> set (contextNodeById c')" by simp
      then have "contextId n \<in> set (mapKeys (contextNodeById c'))"
        unfolding mapKeys_def by force
      with Some show ?thesis by simp
    qed simp
  qed
  have bound': "0 < k \<and> k \<le> idCounter (contextState state)"
    if "k \<in> set (mapKeys (astNodeById c')) \<union> set (mapKeys (contextNodeById c'))" for k
    using consistent_bound [OF cons, of k] that unfolding nodes' by (simp add: c_def)
  have cons': "consistent state'"
    unfolding consistent_def after using wf' bound' stored' next_open
    by (auto split: option.splits)
  have children: "childIdsOf c' k = childIdsOf c k" for k
    by (simp add: childIdsOf_def children')
  have unchanged': "unchangedUpTo m c0 c'"
    using unchanged i_new unfolding unchangedUpTo_def children ctx_keys' parents'
    by (auto simp: c'_def map_of_mapSet)
  have "extends earlier state'"
    unfolding extends_def using cons' unchanged' le
    by (simp add: after m_def c0_def)
  moreover have "set (mapKeys (contextNodeById (nodeIdMapCollection (contextState state'))))
                   = set (mapKeys (contextNodeById c)) - {i}"
    using ctx_keys' by (simp add: after)
  moreover have "currentId state' = mapGet (parentIdById c) i"
    using next_id by (simp add: after currentId_def)
  ultimately show ?thesis unfolding c_def i_def by blast
qed

lemma foldl_mapSet_const_set:
  "entry \<in> set (foldl (\<lambda>m x. mapSet m x q) par cs) \<Longrightarrow>
   entry \<in> set par \<or> (fst entry \<in> set cs \<and> snd entry = q)"
proof (induction cs arbitrary: par)
  case Nil
  then show ?case by simp
next
  case (Cons x cs)
  from Cons.prems have "entry \<in> set (foldl (\<lambda>m x. mapSet m x q) (mapSet par x q) cs)" by simp
  from Cons.IH [OF this] show ?case
  proof
    assume "entry \<in> set (mapSet par x q)"
    from set_mapSet [OF this] show ?thesis by auto
  qed auto
qed

lemma foldl_mapSet_const_get:
  "mapGet (foldl (\<lambda>m x. mapSet m x q) par cs) k =
     (if k \<in> set cs then Some q else mapGet par k)"
  by (induction cs arbitrary: par) (auto simp: mapGet_mapSet)

lemma foldl_mapDelete: "foldl mapDelete par cs = filter (\<lambda>entry. fst entry \<notin> set cs) par"
proof (induction cs arbitrary: par)
  case Nil
  then show ?case by simp
next
  case (Cons x cs)
  have "filter (\<lambda>entry. fst entry \<notin> set cs) (mapDelete par x) =
          filter (\<lambda>entry. fst entry \<notin> set (x # cs)) par"
    unfolding mapDelete_def filter_filter by (rule filter_cong) auto
  with Cons.IH [of "mapDelete par x"] show ?case by simp
qed

lemma mapGet_filter_notin:
  "mapGet (filter (\<lambda>entry. fst entry \<notin> gone) m) k = (if k \<in> gone then None else mapGet m k)"
  by (simp add: mapGet_def map_of_filter_key)

lemma mapGet_map_owner:
  "mapGet (map (\<lambda>entry. if R (fst entry) then (fst entry, f (snd entry)) else entry) m) k =
     (if R k then map_option f (mapGet m k) else mapGet m k)"
  by (induction m) (auto simp: mapGet_def)

lemma filter_replaced:
  assumes "\<not> P i" and "\<forall>x \<in> set cs. \<not> P x"
  shows "filter P (concat (map (\<lambda>x. if x = i then cs else [x]) xs)) = filter P xs"
proof -
  from assms(2) have none: "filter P cs = []" by (simp add: filter_empty_conv)
  show ?thesis using assms(1) none by (induction xs) auto
qed

lemma removeFromParent_map:
  "removeFromParent m maybeParent i =
     map (\<lambda>entry. if Some (fst entry) = maybeParent
                   then (fst entry, filter (\<lambda>x. x \<noteq> i) (snd entry)) else entry) m"
  by (cases maybeParent) (auto simp: removeFromParent_def)

text \<open>The id map after a context is deleted with the policy reparentChildren.\<close>

lemma deleteNode_reparentChildren:
  fixes c :: Collection and i :: nat
  defines "p \<equiv> mapGet (parentIdById c) i"
    and "cs \<equiv> childIdsOf c i"
    and "c' \<equiv> deleteNode reparentChildren c i False"
  shows "astNodeById c' = mapDelete (astNodeById c) i"
    and "contextNodeById c' = mapDelete (contextNodeById c) i"
    and "mapGet (parentIdById c') k =
           (if k = i then None else if k \<in> set cs then p else mapGet (parentIdById c) k)"
    and "entry \<in> set (parentIdById c') \<Longrightarrow>
           fst entry \<noteq> i
           \<and> (entry \<in> set (parentIdById c) \<or> (fst entry \<in> set cs \<and> p = Some (snd entry)))"
    and "owned \<in> set (childIdsById c') \<Longrightarrow>
           fst owned \<noteq> i
           \<and> (\<exists>xs. (fst owned, xs) \<in> set (childIdsById c)
                  \<and> (if Some (fst owned) = p
                      then set (snd owned) \<subseteq> (set xs \<union> set cs) - {i}
                      else snd owned = xs))"
    and "k \<noteq> i \<Longrightarrow> \<not> P i \<Longrightarrow> \<forall>x \<in> set cs. \<not> P x \<Longrightarrow>
           filter P (childIdsOf c' k) = filter P (childIdsOf c k)"
proof -
  define parents1 where
    "parents1 = (if cs = [] then parentIdById c
                 else case p of
                        Some q \<Rightarrow> foldl (\<lambda>m x. mapSet m x q) (parentIdById c) cs
                      | None \<Rightarrow> foldl mapDelete (parentIdById c) cs)"
  define W where
    "W = (\<lambda>xs. if cs = [] then xs else concat (map (\<lambda>x. if x = i then cs else [x]) xs))"
  define children1 where
    "children1 = map (\<lambda>entry. if Some (fst entry) = p then (fst entry, W (snd entry)) else entry)
                   (childIdsById c)"
  have explicit: "c' = c\<lparr>astNodeById := mapDelete (astNodeById c) i,
                            contextNodeById := mapDelete (contextNodeById c) i,
                            parentIdById := mapDelete parents1 i,
                            childIdsById := mapDelete (removeFromParent children1 p i) i\<rparr>"
  proof (cases "cs = []")
    case True
    have "children1 = childIdsById c"
      unfolding children1_def W_def using True by (simp add: map_idI)
    with True show ?thesis
      unfolding c'_def deleteNode_def Let_def p_def [symmetric] cs_def [symmetric] parents1_def
      by simp
  next
    case False
    show ?thesis
    proof (cases p)
      case None
      have "children1 = childIdsById c"
        unfolding children1_def using None by (simp add: map_idI)
      with False None show ?thesis
        unfolding c'_def deleteNode_def Let_def p_def [symmetric] cs_def [symmetric] parents1_def
        by (simp add: reparentChildren_def)
    next
      case (Some q)
      have "children1 = map (\<lambda>entry. if fst entry = q
                             then (fst entry,
                                   concat (map (\<lambda>x. if x = i then cs else [x]) (snd entry)))
                             else entry) (childIdsById c)"
        unfolding children1_def W_def using False Some by auto
      with False Some show ?thesis
        unfolding c'_def deleteNode_def Let_def p_def [symmetric] cs_def [symmetric] parents1_def
        by (simp add: reparentChildren_def)
    qed
  qed
  show "astNodeById c' = mapDelete (astNodeById c) i"
    and "contextNodeById c' = mapDelete (contextNodeById c) i"
    by (simp_all add: explicit)
  have get1: "mapGet parents1 k = (if k \<in> set cs then p else mapGet (parentIdById c) k)" for k
    unfolding parents1_def
    by (cases p) (auto simp: foldl_mapSet_const_get foldl_mapDelete mapGet_filter_notin)
  show "mapGet (parentIdById c') k =
           (if k = i then None else if k \<in> set cs then p else mapGet (parentIdById c) k)"
    by (simp add: explicit mapGet_mapDelete get1)
  show "fst entry \<noteq> i
          \<and> (entry \<in> set (parentIdById c) \<or> (fst entry \<in> set cs \<and> p = Some (snd entry)))"
    if "entry \<in> set (parentIdById c')"
  proof -
    from that have "entry \<in> set parents1" and "fst entry \<noteq> i"
      by (simp_all add: explicit set_mapDelete)
    moreover from \<open>entry \<in> set parents1\<close>
    have "entry \<in> set (parentIdById c) \<or> (fst entry \<in> set cs \<and> p = Some (snd entry))"
      unfolding parents1_def
      by (cases p) (auto simp: foldl_mapDelete dest: foldl_mapSet_const_set split: if_splits)
    ultimately show ?thesis by simp
  qed
  have final: "childIdsById c' =
                 mapDelete
                   (map (\<lambda>entry. if Some (fst entry) = p
                                 then (fst entry, filter (\<lambda>x. x \<noteq> i) (W (snd entry)))
                                 else entry) (childIdsById c)) i"
    unfolding explicit removeFromParent_map children1_def
    by (simp add: comp_def if_distrib cong: if_cong)
  show "fst owned \<noteq> i
           \<and> (\<exists>xs. (fst owned, xs) \<in> set (childIdsById c)
                  \<and> (if Some (fst owned) = p
                      then set (snd owned) \<subseteq> (set xs \<union> set cs) - {i}
                      else snd owned = xs))"
    if "owned \<in> set (childIdsById c')"
  proof -
    from that
    have mem: "owned \<in> (\<lambda>entry. if Some (fst entry) = p
                                 then (fst entry, filter (\<lambda>x. x \<noteq> i) (W (snd entry)))
                                 else entry) ` set (childIdsById c)"
      and key: "fst owned \<noteq> i"
      unfolding final by (simp_all add: set_mapDelete)
    from mem obtain entry where entry: "entry \<in> set (childIdsById c)"
      and owned: "owned = (if Some (fst entry) = p
                           then (fst entry, filter (\<lambda>x. x \<noteq> i) (W (snd entry)))
                           else entry)"
      by (rule imageE)
    have W_set: "set (W xs) \<subseteq> set xs \<union> set cs" for xs
      unfolding W_def by auto
    from entry have listed: "(fst entry, snd entry) \<in> set (childIdsById c)" by simp
    show ?thesis
    proof (cases "Some (fst entry) = p")
      case True
      with owned have "fst owned = fst entry"
        and "snd owned = filter (\<lambda>x. x \<noteq> i) (W (snd entry))" by simp_all
      with W_set [of "snd entry"] True key listed show ?thesis
        by (intro conjI exI [of _ "snd entry"]) auto
    next
      case False
      with owned have "owned = entry" by simp
      with False key listed show ?thesis
        by (intro conjI exI [of _ "snd entry"]) auto
    qed
  qed
  show "filter P (childIdsOf c' k) = filter P (childIdsOf c k)"
    if "k \<noteq> i" and "\<not> P i" and "\<forall>x \<in> set cs. \<not> P x"
  proof -
    have without: "filter (\<lambda>x. x \<noteq> i \<and> P x) ys = filter P ys" for ys :: "nat list"
      using that(2) by (intro filter_cong) auto
    have W_filter: "filter P (W xs) = filter P xs" for xs
      unfolding W_def using filter_replaced [of P i cs, OF that(2,3)] by simp
    have "mapGet (map (\<lambda>entry. if Some (fst entry) = p
                                 then (fst entry, filter (\<lambda>x. x \<noteq> i) (W (snd entry)))
                                 else entry) (childIdsById c)) k =
            (if Some k = p then map_option (\<lambda>xs. filter (\<lambda>x. x \<noteq> i) (W xs))
                                  (mapGet (childIdsById c) k)
             else mapGet (childIdsById c) k)"
      by (rule mapGet_map_owner [of "\<lambda>owner. Some owner = p"
                 "\<lambda>xs. filter (\<lambda>x. x \<noteq> i) (W xs)"])
    with that(1)
    have "mapGet (childIdsById c') k =
            (if Some k = p then map_option (\<lambda>xs. filter (\<lambda>x. x \<noteq> i) (W xs))
                                  (mapGet (childIdsById c) k)
             else mapGet (childIdsById c) k)"
      unfolding final by (simp only: mapGet_mapDelete if_False)
    then show ?thesis
      unfolding childIdsOf_def
      by (auto simp: without W_filter split: option.splits)
  qed
qed

lemma deleteContext_extends:
  assumes ext: "extends earlier state"
    and current: "maybeCurrentContextNode state = Some node"
    and new: "idCounter (contextState earlier) < contextId node"
    and top: "\<forall>k \<in> set (mapKeys (contextNodeById (nodeIdMapCollection (contextState state)))).
                k \<le> contextId node"
    and deleted: "deleteContext state None = Inr state'"
  shows "extends earlier state'
       \<and> set (mapKeys (contextNodeById (nodeIdMapCollection (contextState state'))))
           = set (mapKeys (contextNodeById (nodeIdMapCollection (contextState state))))
               - {contextId node}
       \<and> currentId state'
           = mapGet (parentIdById (nodeIdMapCollection (contextState state))) (contextId node)"
proof -
  define c where "c = nodeIdMapCollection (contextState state)"
  define i where "i = contextId node"
  define m where "m = idCounter (contextState earlier)"
  define c0 where "c0 = nodeIdMapCollection (contextState earlier)"
  define c' where "c' = deleteNode reparentChildren c i False"
  define p where "p = mapGet (parentIdById c) i"
  define cs where "cs = childIdsOf c i"
  define next_current where
    "next_current = (case p of
                       None \<Rightarrow> None
                     | Some parentId \<Rightarrow> mapGet (contextNodeById c') parentId)"
  from ext have cons: "consistent state" by (rule extends_consistent)
  then have wf: "wellFormed c" by (simp add: consistent_wellFormed c_def)
  have i_open: "i \<in> set (mapKeys (contextNodeById c))"
    using consistent_current [OF cons current] by (simp add: i_def c_def)
  then have present: "mapGet (contextNodeById c) i \<noteq> None"
    by (simp add: mapGet_None_iff)
  have "deleteContext state None =
          Inr (state\<lparr>contextState := (contextState state)\<lparr>nodeIdMapCollection := c'\<rparr>,
                     maybeCurrentContextNode := next_current\<rparr>)"
    using current present
    unfolding deleteContext_def ParseContextUtils_deleteContext_def Let_def c_def i_def c'_def
      p_def next_current_def
    by simp
  with deleted
  have after: "state' = state\<lparr>contextState :=
                                (contextState state)\<lparr>nodeIdMapCollection := c'\<rparr>,
                             maybeCurrentContextNode := next_current\<rparr>"
    by simp
  from ext have le: "m \<le> idCounter (contextState state)" and unchanged: "unchangedUpTo m c0 c"
    by (simp_all add: extends_def m_def c_def c0_def)
  from new have i_new: "m < i" by (simp add: m_def i_def)
  have ast': "astNodeById c' = mapDelete (astNodeById c) i"
    and ctx': "contextNodeById c' = mapDelete (contextNodeById c) i"
    unfolding c'_def by (rule deleteNode_reparentChildren)+
  have parent': "mapGet (parentIdById c') k =
                   (if k = i then None else if k \<in> set cs then p else mapGet (parentIdById c) k)"
    for k
    unfolding c'_def cs_def p_def by (rule deleteNode_reparentChildren)
  have parent_entry: "fst entry \<noteq> i
           \<and> (entry \<in> set (parentIdById c) \<or> (fst entry \<in> set cs \<and> p = Some (snd entry)))"
    if "entry \<in> set (parentIdById c')" for entry
    using that unfolding c'_def cs_def p_def by (rule deleteNode_reparentChildren)
  have owner_entry: "fst owned \<noteq> i
           \<and> (\<exists>xs. (fst owned, xs) \<in> set (childIdsById c)
                  \<and> (if Some (fst owned) = p
                      then set (snd owned) \<subseteq> (set xs \<union> set cs) - {i}
                      else snd owned = xs))"
    if "owned \<in> set (childIdsById c')" for owned
    using that unfolding c'_def cs_def p_def by (rule deleteNode_reparentChildren)
  have kept: "filter P (childIdsOf c' k) = filter P (childIdsOf c k)"
    if "k \<noteq> i" and "\<not> P i" and "\<forall>x \<in> set cs. \<not> P x" for P k
    using that unfolding c'_def cs_def by (rule deleteNode_reparentChildren)
  have child: "i < x" "mapGet (parentIdById c) x = Some i"
    "x \<in> set (mapKeys (astNodeById c)) \<union> set (mapKeys (contextNodeById c))"
    "x \<notin> set (mapKeys (contextNodeById c))"
    if "x \<in> set cs" for x
  proof -
    from that have x: "x \<in> set (childIdsOf c i)" by (simp add: cs_def)
    from wellFormed_child(1) [OF wf x] show "i < x" .
    from childIdsOf_parent [OF wf x] show "mapGet (parentIdById c) x = Some i" .
    from wellFormed_child(2) [OF wf x]
    show "x \<in> set (mapKeys (astNodeById c)) \<union> set (mapKeys (contextNodeById c))" .
    from top \<open>i < x\<close> show "x \<notin> set (mapKeys (contextNodeById c))"
      by (auto simp: c_def i_def)
  qed
  have ast_keys': "set (mapKeys (astNodeById c')) = set (mapKeys (astNodeById c)) - {i}"
    by (simp add: ast' set_mapKeys_mapDelete)
  have ctx_keys': "set (mapKeys (contextNodeById c')) = set (mapKeys (contextNodeById c)) - {i}"
    by (simp add: ctx' set_mapKeys_mapDelete)
  have wf': "wellFormed c'"
  proof (rule wellFormed_intro)
    show "distinct (mapKeys (astNodeById c'))"
      using wellFormed_keys(1) [OF wf] by (simp add: ast' distinct_mapKeys_mapDelete)
    show "distinct (mapKeys (contextNodeById c'))"
      using wellFormed_keys(2) [OF wf] by (simp add: ctx' distinct_mapKeys_mapDelete)
    show "set (mapKeys (astNodeById c')) \<inter> set (mapKeys (contextNodeById c')) = {}"
      using wellFormed_keys(3) [OF wf] unfolding ast_keys' ctx_keys' by auto
  next
    fix k q assume "(k, q) \<in> set (parentIdById c')"
    from parent_entry [OF this]
    have k: "k \<noteq> i"
      and cases: "(k, q) \<in> set (parentIdById c) \<or> (k \<in> set cs \<and> p = Some q)"
      by simp_all
    from cases
    show "q < k
           \<and> k \<in> set (mapKeys (astNodeById c')) \<union> set (mapKeys (contextNodeById c'))
           \<and> (k \<in> set (mapKeys (contextNodeById c')) \<longrightarrow>
                q \<in> set (mapKeys (contextNodeById c')))"
    proof
      assume old: "(k, q) \<in> set (parentIdById c)"
      note facts = wellFormed_parent [OF wf old]
      have "q \<in> set (mapKeys (contextNodeById c'))" if "k \<in> set (mapKeys (contextNodeById c'))"
      proof -
        from that have open_k: "k \<in> set (mapKeys (contextNodeById c))"
          unfolding ctx_keys' by simp
        from top open_k have "k \<le> i" by (simp add: c_def i_def)
        with facts(1) have "q \<noteq> i" by simp
        with facts(3) [OF open_k] show ?thesis unfolding ctx_keys' by simp
      qed
      with facts(1,2) k show ?thesis unfolding ast_keys' ctx_keys' by auto
    next
      assume moved: "k \<in> set cs \<and> p = Some q"
      then have "mapGet (parentIdById c) i = Some q" by (simp add: p_def)
      from wellFormed_parent(1) [OF wf mapGet_Some_set [OF this]] have "q < i" .
      with child [of k] moved k show ?thesis unfolding ast_keys' ctx_keys' by auto
    qed
  next
    fix owner ys assume "(owner, ys) \<in> set (childIdsById c')"
    from owner_entry [OF this]
    have owner: "owner \<noteq> i"
      and "\<exists>xs. (owner, xs) \<in> set (childIdsById c)
                \<and> (if Some owner = p then set ys \<subseteq> (set xs \<union> set cs) - {i} else ys = xs)"
      by (simp_all cong: if_cong)
    then obtain xs where xs: "(owner, xs) \<in> set (childIdsById c)"
      and ys: "if Some owner = p then set ys \<subseteq> (set xs \<union> set cs) - {i} else ys = xs"
      by blast
    have "mapGet (parentIdById c') x = Some owner" if "x \<in> set ys" for x
    proof (cases "Some owner = p")
      case True
      with ys that have x: "x \<noteq> i" "x \<in> set xs \<or> x \<in> set cs" by auto
      show ?thesis
      proof (cases "x \<in> set cs")
        case True
        with x \<open>Some owner = p\<close> show ?thesis by (simp add: parent')
      next
        case False
        with x have "x \<in> set xs" by simp
        from wellFormed_owner(2) [OF wf xs this] False x show ?thesis by (simp add: parent')
      qed
    next
      case False
      with ys that have "x \<in> set xs" by simp
      from wellFormed_owner(2) [OF wf xs this]
      have was: "mapGet (parentIdById c) x = Some owner" .
      with False have "x \<noteq> i" by (auto simp: p_def)
      moreover from was owner child(2) [of x] have "x \<notin> set cs" by auto
      ultimately show ?thesis using was by (simp add: parent')
    qed
    with wellFormed_owner(1) [OF wf xs] owner
    show "owner \<in> set (mapKeys (astNodeById c')) \<union> set (mapKeys (contextNodeById c'))
           \<and> (\<forall>x \<in> set ys. mapGet (parentIdById c') x = Some owner)"
      unfolding ast_keys' ctx_keys' by auto
  qed
  have stored': "contextId (snd entry) = fst entry" if "entry \<in> set (contextNodeById c')"
    for entry
  proof -
    from that have "entry \<in> set (contextNodeById c)" by (simp add: ctx' set_mapDelete)
    with cons show ?thesis unfolding consistent_def c_def by blast
  qed
  have next_id: "map_option contextId next_current = p"
  proof (cases p)
    case None
    then show ?thesis by (simp add: next_current_def)
  next
    case (Some q)
    then have "mapGet (parentIdById c) i = Some q" by (simp add: p_def)
    note facts = wellFormed_parent [OF wf mapGet_Some_set [OF this]]
    from facts(1) facts(3) [OF i_open] have "q \<in> set (mapKeys (contextNodeById c'))"
      unfolding ctx_keys' by simp
    then obtain n where n: "mapGet (contextNodeById c') q = Some n"
      using mapGet_None_iff [of "contextNodeById c'" q] by auto
    from stored' [OF mapGet_Some_set [OF n]] have "contextId n = q" by simp
    with Some n show ?thesis by (simp add: next_current_def)
  qed
  have next_open: "case next_current of
                      None \<Rightarrow> True
                    | Some n \<Rightarrow> contextId n \<in> set (mapKeys (contextNodeById c'))"
  proof (cases next_current)
    case (Some n)
    then obtain q where "mapGet (contextNodeById c') q = Some n"
      by (auto simp: next_current_def split: option.splits)
    from mapGet_Some_set [OF this] stored' [of "(q, n)"]
    have "(contextId n, n) \<in> set (contextNodeById c')" by simp
    then have "contextId n \<in> set (mapKeys (contextNodeById c'))"
      unfolding mapKeys_def by force
    with Some show ?thesis by simp
  qed simp
  have bound': "0 < k \<and> k \<le> idCounter (contextState state)"
    if "k \<in> set (mapKeys (astNodeById c')) \<union> set (mapKeys (contextNodeById c'))" for k
    using consistent_bound [OF cons, of k] that unfolding ast_keys' ctx_keys'
    by (auto simp: c_def)
  have cons': "consistent state'"
    unfolding consistent_def after using wf' bound' stored' next_open
    by (auto split: option.splits)
  have above: "\<forall>x \<in> set cs. \<not> x \<le> m"
    using child(1) i_new by fastforce
  have "unchangedUpTo m c0 c'"
    unfolding unchangedUpTo_def
  proof (intro conjI allI impI)
    fix k assume k: "k \<le> m"
    with i_new have "k \<noteq> i" by simp
    from k above have "k \<notin> set cs" by auto
    from unchanged k
    have old: "map_of (astNodeById c) k = map_of (astNodeById c0) k"
      "(k \<in> set (mapKeys (contextNodeById c))) = (k \<in> set (mapKeys (contextNodeById c0)))"
      "map_of (parentIdById c) k = map_of (parentIdById c0) k"
      "filter (\<lambda>x. x \<le> m) (childIdsOf c k) = childIdsOf c0 k"
      unfolding unchangedUpTo_def by simp_all
    from mapGet_mapDelete [of "astNodeById c" i k] \<open>k \<noteq> i\<close> old(1)
    show "map_of (astNodeById c') k = map_of (astNodeById c0) k"
      by (simp add: ast' mapGet_def)
    from old(2) \<open>k \<noteq> i\<close>
    show "(k \<in> set (mapKeys (contextNodeById c'))) = (k \<in> set (mapKeys (contextNodeById c0)))"
      unfolding ctx_keys' by simp
    from parent' [of k] \<open>k \<noteq> i\<close> \<open>k \<notin> set cs\<close> old(3)
    show "map_of (parentIdById c') k = map_of (parentIdById c0) k"
      by (simp add: mapGet_def)
    from i_new have "\<not> i \<le> m" by simp
    from kept [of k "\<lambda>x. x \<le> m", OF \<open>k \<noteq> i\<close> this above] old(4)
    show "filter (\<lambda>x. x \<le> m) (childIdsOf c' k) = childIdsOf c0 k" by simp
  qed
  then have "extends earlier state'"
    unfolding extends_def using cons' le
    by (simp add: after m_def c0_def)
  moreover have "set (mapKeys (contextNodeById (nodeIdMapCollection (contextState state'))))
                   = set (mapKeys (contextNodeById c)) - {i}"
    using ctx_keys' by (simp add: after)
  moreover have "currentId state' = mapGet (parentIdById c) i"
    using next_id by (simp add: after currentId_def p_def)
  ultimately show ?thesis unfolding c_def i_def by blast
qed

lemma extends_refl:
  assumes "consistent state"
  shows "extends state state"
proof -
  define c where "c = nodeIdMapCollection (contextState state)"
  define m where "m = idCounter (contextState state)"
  from assms have wf: "wellFormed c" by (simp add: consistent_wellFormed c_def)
  have "filter (\<lambda>x. x \<le> m) (childIdsOf c k) = childIdsOf c k" for k
  proof -
    have "x \<le> m" if "x \<in> set (childIdsOf c k)" for x
      using consistent_bound(2) [OF assms, of x] wellFormed_child(2) [OF wf that]
      by (simp add: c_def m_def)
    then show ?thesis by (simp add: filter_id_conv)
  qed
  then have "unchangedUpTo m c c" by (simp add: unchangedUpTo_def)
  with assms show ?thesis by (simp add: extends_def c_def m_def)
qed

lemma nestedRun_same: "nestedRun state (out, state)"
  by (simp add: nestedRun_def)

lemma nestedRun_trans:
  assumes "nestedRun state (None, state1)" and "nestedRun state1 result"
  shows "nestedRun state result"
  using assms unfolding nestedRun_def by auto

lemma nestedRun_Production:
  assumes inner: "nestedRun (startContext state nodeKind)
                    (runReads parts (startContext state nodeKind))"
  shows "nestedRun state (runRead (Production nodeKind parts ending) state)"
  unfolding nestedRun_def
proof (intro allI impI)
  fix earlier assume ext: "extends earlier state"
  define s1 where "s1 = startContext state nodeKind"
  define n where "n = idCounter (contextState state) + 1"
  obtain out s2 where run: "runReads parts s1 = (out, s2)" by (cases "runReads parts s1")
  from startContext_extends [OF ext, of nodeKind]
  have ext1: "extends earlier s1" and current1: "currentId s1 = Some n"
    and counter1: "idCounter (contextState s1) = n"
    and keys1: "set (mapKeys (contextNodeById (nodeIdMapCollection (contextState s1))))
                  = insert n (set (mapKeys (contextNodeById
                                              (nodeIdMapCollection (contextState state)))))"
    and parent1: "mapGet (parentIdById (nodeIdMapCollection (contextState s1))) n
                    = currentId state"
    by (simp_all add: s1_def n_def)
  from ext1 have "consistent s1" by (rule extends_consistent)
  then have refl1: "extends s1 s1" by (rule extends_refl)
  from inner run ext1
  have ext2: "extends earlier s2"
    and same2: "out = None \<longrightarrow>
          set (mapKeys (contextNodeById (nodeIdMapCollection (contextState s2))))
            = set (mapKeys (contextNodeById (nodeIdMapCollection (contextState s1))))
          \<and> currentId s2 = currentId s1"
    unfolding nestedRun_def s1_def [symmetric] by auto
  from inner run refl1 have ext12: "extends s1 s2"
    unfolding nestedRun_def s1_def [symmetric] by auto
  let ?result = "runRead (Production nodeKind parts ending) state"
  show "extends earlier (snd ?result)
        \<and> (fst ?result = None \<longrightarrow>
             set (mapKeys (contextNodeById (nodeIdMapCollection (contextState (snd ?result)))))
               = set (mapKeys (contextNodeById (nodeIdMapCollection (contextState state))))
             \<and> currentId (snd ?result) = currentId state)"
  proof (cases out)
    case (Some err)
    with run have "?result = (Some err, s2)" by (simp add: s1_def)
    with ext2 show ?thesis by simp
  next
    case None
    with same2 current1 keys1
    have keys2: "set (mapKeys (contextNodeById (nodeIdMapCollection (contextState s2))))
                  = insert n (set (mapKeys (contextNodeById
                                              (nodeIdMapCollection (contextState state)))))"
      and current2: "currentId s2 = Some n"
      by simp_all
    then obtain node where node: "maybeCurrentContextNode s2 = Some node"
      and node_id: "contextId node = n"
      by (auto simp: currentId_def)
    from ext have cons: "consistent state" by (rule extends_consistent)
    have below: "k < n"
      if "k \<in> set (mapKeys (contextNodeById (nodeIdMapCollection (contextState state))))" for k
      using consistent_bound(2) [OF cons, of k] that by (simp add: n_def)
    from ext have "idCounter (contextState earlier) \<le> idCounter (contextState state)"
      by (simp add: extends_def)
    then have new: "idCounter (contextState earlier) < contextId node"
      by (simp add: node_id n_def)
    have top: "\<forall>k \<in> set (mapKeys (contextNodeById (nodeIdMapCollection (contextState s2)))).
                 k \<le> contextId node"
      unfolding keys2 node_id using below by (auto intro: less_imp_le)
    have fresh: "n \<notin> set (mapKeys (contextNodeById (nodeIdMapCollection (contextState state))))"
      using below [of n] by auto
    from ext12 counter1
    have "map_of (parentIdById (nodeIdMapCollection (contextState s2))) n
            = map_of (parentIdById (nodeIdMapCollection (contextState s1))) n"
      unfolding extends_def unchangedUpTo_def by simp
    with parent1
    have parent2: "mapGet (parentIdById (nodeIdMapCollection (contextState s2))) n
                     = currentId state"
      by (simp add: mapGet_def)
    define finished where
      "finished = (case ending of
                     EndContext astNode \<Rightarrow> endContext s2 astNode
                   | DeleteContext \<Rightarrow> deleteContext s2 None)"
    from run None
    have result: "?result = (case finished of
                               Inl err \<Rightarrow> (Some err, s2)
                             | Inr s3 \<Rightarrow> (None, s3))"
      by (simp add: s1_def finished_def)
    show ?thesis
    proof (cases finished)
      case (Inl err)
      with result ext2 show ?thesis by simp
    next
      case (Inr s3)
      have "extends earlier s3
          \<and> set (mapKeys (contextNodeById (nodeIdMapCollection (contextState s3))))
              = set (mapKeys (contextNodeById (nodeIdMapCollection (contextState s2))))
                  - {contextId node}
          \<and> currentId s3
              = mapGet (parentIdById (nodeIdMapCollection (contextState s2))) (contextId node)"
      proof (cases ending)
        case (EndContext astNode)
        with Inr have "endContext s2 astNode = Inr s3" by (simp add: finished_def)
        from endContext_extends [OF ext2 node new top this] show ?thesis .
      next
        case DeleteContext
        with Inr have "deleteContext s2 None = Inr s3" by (simp add: finished_def)
        from deleteContext_extends [OF ext2 node new top this] show ?thesis .
      qed
      with keys2 fresh parent2 node_id
      have "extends earlier s3
          \<and> set (mapKeys (contextNodeById (nodeIdMapCollection (contextState s3))))
              = set (mapKeys (contextNodeById (nodeIdMapCollection (contextState state))))
          \<and> currentId s3 = currentId state"
        by auto
      with result Inr show ?thesis by simp
    qed
  qed
qed


lemma childIdsOf_withoutIds_gone:
  assumes "k \<in> gone"
  shows "childIdsOf (withoutIds gone c) k = []"
proof -
  have "map_of (map (\<lambda>entry. (fst entry, filter (\<lambda>x. x \<notin> gone) (snd entry)))
                  (filter (\<lambda>entry. fst entry \<notin> gone) m)) k = None"
    for m :: "(nat \<times> nat list) list"
    using assms by (induction m) auto
  then show ?thesis by (simp add: childIdsOf_def withoutIds_def mapGet_def)
qed

lemma set_mapKeys_filter:
  "set (mapKeys (filter (\<lambda>entry. P (fst entry)) xs)) = {k \<in> set (mapKeys xs). P k}"
  by (induction xs) (auto simp: mapKeys_def)

lemma map_of_filter_above:
  "map_of (filter (\<lambda>entry. \<not> m < fst entry) xs) k = (if m < k then None else map_of xs k)"
  using map_of_filter_key [of "{nodeId. m < nodeId}" xs k] by simp

lemma extends_observablyEqual:
  assumes cons0: "consistent earlier" and ext: "extends earlier state"
  shows "observablyEqual
           (withoutIds {nodeId. idCounter (contextState earlier) < nodeId}
              (nodeIdMapCollection (contextState state)))
           (nodeIdMapCollection (contextState earlier))"
proof -
  define c where "c = nodeIdMapCollection (contextState state)"
  define c0 where "c0 = nodeIdMapCollection (contextState earlier)"
  define m where "m = idCounter (contextState earlier)"
  from cons0 have wf0: "wellFormed c0" by (simp add: consistent_wellFormed c0_def)
  from ext have unchanged: "unchangedUpTo m c0 c"
    by (simp add: extends_def m_def c_def c0_def)
  have node0: "k \<le> m"
    if "k \<in> set (mapKeys (astNodeById c0)) \<union> set (mapKeys (contextNodeById c0))" for k
    using consistent_bound(2) [OF cons0, of k] that by (simp add: c0_def m_def)
  have ast: "map_of (astNodeById (withoutIds {nodeId. m < nodeId} c)) k = map_of (astNodeById c0) k"
    for k
  proof (cases "k \<le> m")
    case True
    with unchanged show ?thesis
      by (simp add: unchangedUpTo_def withoutIds_def map_of_filter_above)
  next
    case False
    with node0 [of k] have "k \<notin> set (mapKeys (astNodeById c0))" by auto
    then have "map_of (astNodeById c0) k = None"
      by (simp add: mapKeys_def map_of_eq_None_iff)
    with False show ?thesis by (simp add: withoutIds_def map_of_filter_above)
  qed
  have ctx: "set (mapKeys (contextNodeById (withoutIds {nodeId. m < nodeId} c)))
               = set (mapKeys (contextNodeById c0))"
  proof -
    have "(k \<in> set (mapKeys (contextNodeById c)) \<and> k \<le> m)
            = (k \<in> set (mapKeys (contextNodeById c0)))" for k
      using unchanged node0 [of k] unfolding unchangedUpTo_def by auto
    moreover
    have "contextNodeById (withoutIds {nodeId. m < nodeId} c)
            = filter (\<lambda>entry. fst entry \<le> m) (contextNodeById c)"
      by (simp add: withoutIds_def not_less)
    then have "set (mapKeys (contextNodeById (withoutIds {nodeId. m < nodeId} c)))
                 = {k \<in> set (mapKeys (contextNodeById c)). k \<le> m}"
      by (simp only: set_mapKeys_filter [of "\<lambda>k. k \<le> m"])
    ultimately show ?thesis by blast
  qed
  have parent: "map_of (parentIdById (withoutIds {nodeId. m < nodeId} c)) k
                  = map_of (parentIdById c0) k" for k
  proof (cases "k \<le> m")
    case True
    with unchanged show ?thesis
      by (simp add: unchangedUpTo_def withoutIds_def map_of_filter_above)
  next
    case False
    have "map_of (parentIdById c0) k = None"
    proof (cases "map_of (parentIdById c0) k")
      case (Some q)
      then have "(k, q) \<in> set (parentIdById c0)" by (rule map_of_SomeD)
      from wellFormed_parent(2) [OF wf0 this] node0 [of k] False show ?thesis by simp
    qed simp
    with False show ?thesis by (simp add: withoutIds_def map_of_filter_above)
  qed
  have children: "childIdsOf (withoutIds {nodeId. m < nodeId} c) k = childIdsOf c0 k" for k
  proof (cases "k \<le> m")
    case True
    then have "k \<notin> {nodeId. m < nodeId}" by simp
    from childIdsOf_withoutIds [OF this, of c]
    have "childIdsOf (withoutIds {nodeId. m < nodeId} c) k
            = filter (\<lambda>x. x \<le> m) (childIdsOf c k)"
      by (simp add: not_less)
    with unchanged True show ?thesis by (simp add: unchangedUpTo_def)
  next
    case False
    have "childIdsOf c0 k = []"
    proof (cases "mapGet (childIdsById c0) k")
      case None
      then show ?thesis by (simp add: childIdsOf_def)
    next
      case (Some xs)
      from wellFormed_owner(1) [OF wf0 mapGet_Some_set [OF this]] node0 [of k] False
      show ?thesis by simp
    qed
    moreover from False have "k \<in> {nodeId. m < nodeId}" by simp
    ultimately show ?thesis by (simp add: childIdsOf_withoutIds_gone)
  qed
  show ?thesis
    unfolding observablyEqual_def c_def [symmetric] c0_def [symmetric] m_def [symmetric]
    using ctx by (auto simp: ast parent children)
qed


lemma wellFormed_withoutIds:
  assumes wf: "wellFormed c"
  shows "wellFormed (withoutIds {nodeId. m < nodeId} c)"
proof (rule wellFormed_intro)
  let ?c = "withoutIds {nodeId. m < nodeId} c"
  have ast: "set (mapKeys (astNodeById ?c)) = {k \<in> set (mapKeys (astNodeById c)). k \<le> m}"
    and ctx: "set (mapKeys (contextNodeById ?c))
                = {k \<in> set (mapKeys (contextNodeById c)). k \<le> m}"
    using set_mapKeys_filter [of "\<lambda>k. k \<le> m"] by (simp_all add: withoutIds_def not_less)
  show "distinct (mapKeys (astNodeById ?c))"
    using wellFormed_keys(1) [OF wf] by (simp add: withoutIds_def mapKeys_def distinct_map_filter)
  show "distinct (mapKeys (contextNodeById ?c))"
    using wellFormed_keys(2) [OF wf] by (simp add: withoutIds_def mapKeys_def distinct_map_filter)
  show "set (mapKeys (astNodeById ?c)) \<inter> set (mapKeys (contextNodeById ?c)) = {}"
    using wellFormed_keys(3) [OF wf] unfolding ast ctx by auto
  show "q < k
        \<and> k \<in> set (mapKeys (astNodeById ?c)) \<union> set (mapKeys (contextNodeById ?c))
        \<and> (k \<in> set (mapKeys (contextNodeById ?c)) \<longrightarrow> q \<in> set (mapKeys (contextNodeById ?c)))"
    if "(k, q) \<in> set (parentIdById ?c)" for k q
  proof -
    from that have old: "(k, q) \<in> set (parentIdById c)" and k: "k \<le> m"
      by (simp_all add: withoutIds_def not_less)
    from wellFormed_parent [OF wf old] k show ?thesis unfolding ast ctx by auto
  qed
  show "owner \<in> set (mapKeys (astNodeById ?c)) \<union> set (mapKeys (contextNodeById ?c))
        \<and> (\<forall>x \<in> set ys. mapGet (parentIdById ?c) x = Some owner)"
    if "(owner, ys) \<in> set (childIdsById ?c)" for owner ys
  proof -
    from that obtain entry where entry: "entry \<in> set (childIdsById c)"
      and owner: "owner = fst entry" "\<not> m < fst entry"
      and ys: "ys = filter (\<lambda>x. \<not> m < x) (snd entry)"
      by (auto simp: withoutIds_def)
    from entry owner have old: "(owner, snd entry) \<in> set (childIdsById c)" by simp
    have "mapGet (parentIdById ?c) x = Some owner" if "x \<in> set ys" for x
    proof -
      from that ys have "x \<in> set (snd entry)" and "\<not> m < x" by simp_all
      with wellFormed_owner(2) [OF wf old] show ?thesis
        by (simp add: withoutIds_def mapGet_def map_of_filter_above)
    qed
    with wellFormed_owner(1) [OF wf old] owner show ?thesis
      unfolding ast ctx by auto
  qed
qed

lemma unchangedUpTo_withoutIds:
  assumes "unchangedUpTo n earlier c" and "n \<le> m"
  shows "unchangedUpTo n earlier (withoutIds {nodeId. m < nodeId} c)"
  unfolding unchangedUpTo_def
proof (intro conjI allI impI)
  let ?c = "withoutIds {nodeId. m < nodeId} c"
  fix k assume k: "k \<le> n"
  with assms(2) have "k \<le> m" by simp
  from assms(1) k
  have old: "map_of (astNodeById c) k = map_of (astNodeById earlier) k"
    "(k \<in> set (mapKeys (contextNodeById c))) = (k \<in> set (mapKeys (contextNodeById earlier)))"
    "map_of (parentIdById c) k = map_of (parentIdById earlier) k"
    "filter (\<lambda>x. x \<le> n) (childIdsOf c k) = childIdsOf earlier k"
    unfolding unchangedUpTo_def by simp_all
  from old(1) \<open>k \<le> m\<close> show "map_of (astNodeById ?c) k = map_of (astNodeById earlier) k"
    by (simp add: withoutIds_def map_of_filter_above)
  have "set (mapKeys (contextNodeById ?c)) = {k \<in> set (mapKeys (contextNodeById c)). k \<le> m}"
    using set_mapKeys_filter [of "\<lambda>k. k \<le> m"] by (simp add: withoutIds_def not_less)
  with old(2) \<open>k \<le> m\<close>
  show "(k \<in> set (mapKeys (contextNodeById ?c)))
          = (k \<in> set (mapKeys (contextNodeById earlier)))"
    by simp
  from old(3) \<open>k \<le> m\<close>
  show "map_of (parentIdById ?c) k = map_of (parentIdById earlier) k"
    by (simp add: withoutIds_def map_of_filter_above)
  from \<open>k \<le> m\<close> have "k \<notin> {nodeId. m < nodeId}" by simp
  from childIdsOf_withoutIds [OF this, of c]
  have "childIdsOf ?c k = filter (\<lambda>x. x \<le> m) (childIdsOf c k)" by (simp add: not_less)
  moreover have "filter (\<lambda>x. x \<le> n) (filter (\<lambda>x. x \<le> m) xs) = filter (\<lambda>x. x \<le> n) xs"
    for xs :: "nat list"
    unfolding filter_filter using assms(2) by (intro filter_cong) auto
  ultimately show "filter (\<lambda>x. x \<le> n) (childIdsOf ?c k) = childIdsOf earlier k"
    using old(4) by simp
qed

text \<open>
  The rollback to a backup of a state that the state before the call extends.
\<close>

lemma applyFastStateBackup_extends:
  assumes cons0: "consistent state0" and ext: "extends state0 state1"
  shows "\<exists>restored.
           applyFastStateBackup policy state1 (fastStateBackup state0) = Inr restored
         \<and> tokenIndex restored = tokenIndex state0
         \<and> idCounter (contextState restored) = idCounter (contextState state0)
         \<and> nodeIdMapCollection (contextState restored) =
             withoutIds {nodeId. idCounter (contextState state0) < nodeId}
               (nodeIdMapCollection (contextState state1))
         \<and> currentId restored = currentId state0
         \<and> consistent restored"
proof -
  define backup where "backup = fastStateBackup state0"
  define m where "m = idCounter (contextState state0)"
  define c1 where "c1 = nodeIdMapCollection (contextState state1)"
  from ext have cons1: "consistent state1" by (rule extends_consistent)
  then have wf1: "wellFormed c1" by (simp add: consistent_wellFormed c1_def)
  have counter: "contextStateIdCounter backup = m"
    and index: "backupTokenIndex backup = tokenIndex state0"
    and named: "maybeContextNodeId backup = currentId state0"
    by (simp_all add: backup_def fastStateBackup_def m_def currentId_def)
  from ext have unchanged: "unchangedUpTo m (nodeIdMapCollection (contextState state0)) c1"
    by (simp add: extends_def m_def c1_def)
  have kept: "0 < nodeId \<and> nodeId \<le> m \<and> nodeId \<in> set (mapKeys (contextNodeById c1))"
    if "currentId state0 = Some nodeId" for nodeId
  proof -
    from that obtain node where node: "maybeCurrentContextNode state0 = Some node"
      and "contextId node = nodeId"
      by (auto simp: currentId_def)
    with consistent_current [OF cons0 node]
    have isOpen: "nodeId \<in> set (mapKeys (contextNodeById (nodeIdMapCollection (contextState state0))))"
      by simp
    with consistent_bound [OF cons0, of nodeId] have "0 < nodeId" "nodeId \<le> m"
      by (simp_all add: m_def)
    with isOpen unchanged show ?thesis by (simp add: unchangedUpTo_def)
  qed
  have "case maybeContextNodeId backup of
           None \<Rightarrow> True
         | Some nodeId \<Rightarrow>
             nodeId = 0
             \<or> (nodeId \<le> contextStateIdCounter backup
                 \<and> nodeId \<in> set (mapKeys (contextNodeById
                                              (nodeIdMapCollection (contextState state1)))))"
    using kept by (auto simp: named counter c1_def split: option.splits)
  from applyFastStateBackup_wellFormed [OF wf1 [unfolded c1_def] this, of policy]
  obtain restored where
    applied: "applyFastStateBackup policy state1 backup = Inr restored"
    and token: "tokenIndex restored = backupTokenIndex backup"
    and counted: "idCounter (contextState restored) = contextStateIdCounter backup"
    and collection: "nodeIdMapCollection (contextState restored) =
             withoutIds {nodeId. contextStateIdCounter backup < nodeId} c1"
    and current: "maybeCurrentContextNode restored =
             (case maybeContextNodeId backup of
                None \<Rightarrow> None
              | Some nodeId \<Rightarrow>
                  if nodeId = 0 then None
                  else mapGet (contextNodeById (nodeIdMapCollection (contextState restored)))
                         nodeId)"
    unfolding c1_def by blast
  have contexts: "contextNodeById (nodeIdMapCollection (contextState restored))
                    = filter (\<lambda>entry. fst entry \<le> m) (contextNodeById c1)"
    unfolding collection counter by (simp add: withoutIds_def not_less)
  have stored: "contextId (snd entry) = fst entry"
    if "entry \<in> set (contextNodeById (nodeIdMapCollection (contextState restored)))" for entry
  proof -
    from that have "entry \<in> set (contextNodeById c1)" unfolding contexts by simp
    with cons1 show ?thesis unfolding consistent_def c1_def by blast
  qed
  have current_id: "currentId restored = currentId state0"
  proof (cases "currentId state0")
    case None
    with current named show ?thesis by (simp add: currentId_def)
  next
    case (Some nodeId)
    from kept [OF Some] have positive: "nodeId \<noteq> 0" and below: "nodeId \<le> m"
      and isOpen: "nodeId \<in> set (mapKeys (contextNodeById c1))"
      by simp_all
    from isOpen below
    have "nodeId \<in> set (mapKeys (contextNodeById (nodeIdMapCollection (contextState restored))))"
      unfolding contexts set_mapKeys_filter [of "\<lambda>k. k \<le> m"] by simp
    then obtain node where
      node: "mapGet (contextNodeById (nodeIdMapCollection (contextState restored))) nodeId
               = Some node"
      using mapGet_None_iff
              [of "contextNodeById (nodeIdMapCollection (contextState restored))" nodeId]
      by auto
    from stored [OF mapGet_Some_set [OF node]] have "contextId node = nodeId" by simp
    moreover from named Some have "maybeContextNodeId backup = Some nodeId" by simp
    with current positive node have "maybeCurrentContextNode restored = Some node" by simp
    ultimately have "currentId restored = Some nodeId" by (simp add: currentId_def)
    with Some show ?thesis by simp
  qed
  have current_open: "case maybeCurrentContextNode restored of
                        None \<Rightarrow> True
                      | Some node \<Rightarrow>
                          contextId node
                            \<in> set (mapKeys (contextNodeById
                                               (nodeIdMapCollection (contextState restored))))"
  proof (cases "maybeCurrentContextNode restored")
    case (Some node)
    with current obtain nodeId where
      "mapGet (contextNodeById (nodeIdMapCollection (contextState restored))) nodeId = Some node"
      by (auto split: option.splits if_splits)
    from mapGet_Some_set [OF this] stored [of "(nodeId, node)"]
    have "(contextId node, node)
            \<in> set (contextNodeById (nodeIdMapCollection (contextState restored)))"
      by simp
    then have "contextId node
                 \<in> set (mapKeys (contextNodeById (nodeIdMapCollection (contextState restored))))"
      unfolding mapKeys_def by force
    with Some show ?thesis by simp
  qed simp
  have wf: "wellFormed (nodeIdMapCollection (contextState restored))"
    unfolding collection by (rule wellFormed_withoutIds [OF wf1])
  have bound: "0 < k \<and> k \<le> idCounter (contextState restored)"
    if "k \<in> set (mapKeys (astNodeById (nodeIdMapCollection (contextState restored))))
            \<union> set (mapKeys (contextNodeById (nodeIdMapCollection (contextState restored))))"
    for k
  proof -
    have "set (mapKeys (astNodeById (nodeIdMapCollection (contextState restored))))
            = {k \<in> set (mapKeys (astNodeById c1)). k \<le> m}"
      unfolding collection counter
      using set_mapKeys_filter [of "\<lambda>k. k \<le> m"] by (simp add: withoutIds_def not_less)
    moreover
    have "set (mapKeys (contextNodeById (nodeIdMapCollection (contextState restored))))
            = {k \<in> set (mapKeys (contextNodeById c1)). k \<le> m}"
      unfolding contexts by (rule set_mapKeys_filter)
    ultimately have "k \<in> set (mapKeys (astNodeById c1)) \<union> set (mapKeys (contextNodeById c1))"
      and "k \<le> m"
      using that by auto
    with consistent_bound(1) [OF cons1, of k] counted counter show ?thesis
      by (simp add: c1_def)
  qed
  have "consistent restored"
    unfolding consistent_def using wf bound stored current_open
    by (auto split: option.splits)
  with applied token counted collection current_id index counter show ?thesis
    unfolding backup_def [symmetric] m_def [symmetric] c1_def [symmetric]
    by simp
qed

lemma nestedRun_Attempt:
  assumes tried: "nestedRun state (runReads tried state)"
    and other: "\<And>err state1 restored.
                  runReads tried state = (Some err, state1) \<Longrightarrow>
                  applyFastStateBackup reparentChildren state1 (fastStateBackup state)
                    = Inr restored \<Longrightarrow>
                  nestedRun restored (runReads otherwise restored)"
  shows "nestedRun state (runRead (Attempt tried otherwise) state)"
proof -
  obtain out state1 where run: "runReads tried state = (out, state1)"
    by (cases "runReads tried state")
  show ?thesis
  proof (cases out)
    case None
    with run tried show ?thesis by simp
  next
    case (Some err)
    show ?thesis
      unfolding nestedRun_def
    proof (intro allI impI)
      fix earlier assume ext: "extends earlier state"
      then have cons: "consistent state" by (rule extends_consistent)
      then have refl: "extends state state" by (rule extends_refl)
      from tried run ext refl have ext1: "extends earlier state1" and own: "extends state state1"
        unfolding nestedRun_def by auto
      from applyFastStateBackup_extends [OF cons own, of reparentChildren]
      obtain restored where
        applied: "applyFastStateBackup reparentChildren state1 (fastStateBackup state)
                    = Inr restored"
        and counted: "idCounter (contextState restored) = idCounter (contextState state)"
        and collection: "nodeIdMapCollection (contextState restored) =
             withoutIds {nodeId. idCounter (contextState state) < nodeId}
               (nodeIdMapCollection (contextState state1))"
        and current: "currentId restored = currentId state"
        and cons': "consistent restored"
        by blast
      from ext have le: "idCounter (contextState earlier) \<le> idCounter (contextState state)"
        by (simp add: extends_def)
      from ext1
      have "unchangedUpTo (idCounter (contextState earlier))
              (nodeIdMapCollection (contextState earlier))
              (nodeIdMapCollection (contextState state1))"
        by (simp add: extends_def)
      from unchangedUpTo_withoutIds [OF this le]
      have ext': "extends earlier restored"
        unfolding extends_def using cons' le by (simp add: collection counted)
      from extends_observablyEqual [OF cons own]
      have keys: "set (mapKeys (contextNodeById (nodeIdMapCollection (contextState restored))))
                    = set (mapKeys (contextNodeById (nodeIdMapCollection (contextState state))))"
        by (simp add: observablyEqual_def collection)
      from other [OF _ applied] run Some
      have rest: "nestedRun restored (runReads otherwise restored)" by simp
      from run Some applied
      have result: "runRead (Attempt tried otherwise) state = runReads otherwise restored"
        by simp
      from rest ext' keys current
      show "extends earlier (snd (runRead (Attempt tried otherwise) state))
          \<and> (fst (runRead (Attempt tried otherwise) state) = None \<longrightarrow>
               set (mapKeys (contextNodeById (nodeIdMapCollection
                      (contextState (snd (runRead (Attempt tried otherwise) state))))))
                 = set (mapKeys (contextNodeById (nodeIdMapCollection (contextState state))))
               \<and> currentId (snd (runRead (Attempt tried otherwise) state)) = currentId state)"
        unfolding result nestedRun_def by auto
    qed
  qed
qed

lemma runRead_nested:
  shows "nestedRun state (runRead part state)"
    and "nestedRun state (runReads parts state)"
proof (induction part state and parts state rule: runRead_runReads.induct)
  case (1 state)
  show ?case
  proof (cases "readToken state")
    case (Inl err)
    then show ?thesis by (simp add: nestedRun_same)
  next
    case (Inr state')
    from readToken_extends [OF _ this] Inr show ?thesis
      by (auto simp: nestedRun_def)
  qed
next
  case (2 state)
  show ?case
  proof (cases "incrementAttributeCounter state")
    case (Inl err)
    then show ?thesis by (simp add: nestedRun_same)
  next
    case (Inr state')
    from incrementAttributeCounter_extends [OF _ this] Inr show ?thesis
      by (auto simp: nestedRun_def)
  qed
next
  case (3 err state)
  show ?case by (simp add: nestedRun_same)
next
  case (4 nodeKind parts ending state)
  then show ?case by (rule nestedRun_Production)
next
  case (5 tried otherwise state)
  show ?case
  proof (rule nestedRun_Attempt)
    show "nestedRun state (runReads tried state)" by (rule 5(1))
  next
    fix err state1 restored
    assume "runReads tried state = (Some err, state1)"
      and "applyFastStateBackup reparentChildren state1 (fastStateBackup state) = Inr restored"
    then show "nestedRun restored (runReads otherwise restored)"
      using 5(2) [of "Some err" state1 err restored] by simp
  qed
next
  case (6 state)
  show ?case by (simp add: nestedRun_same)
next
  case (7 part parts state)
  obtain out state1 where first: "runRead part state = (out, state1)"
    by (cases "runRead part state")
  show ?case
  proof (cases out)
    case (Some err)
    with first 7(1) show ?thesis by simp
  next
    case None
    with first 7(2) [of out state1] have "nestedRun state1 (runReads parts state1)" by simp
    with first None 7(1) have "nestedRun state (runReads parts state1)"
      by (auto intro: nestedRun_trans)
    with first None show ?thesis by simp
  qed
qed

lemma consistent_stateFactory: "consistent (stateFactory snapshot)"
  by (simp add: consistent_def stateFactory_def ParseContextUtils_newState_def wellFormed_def
        mapKeys_def)

lemma parsed_consistent: "consistent (parsed snapshot reads)"
proof -
  have "extends (stateFactory snapshot) (stateFactory snapshot)"
    using consistent_stateFactory by (rule extends_refl)
  with runRead_nested(2) [of "stateFactory snapshot" reads]
  have "extends (stateFactory snapshot) (parsed snapshot reads)"
    unfolding nestedRun_def parsed_def by blast
  then show ?thesis by (rule extends_consistent)
qed

text \<open>
  Claim C1. A state of the parser is the state that a parse of some tokens has reached by
  some reads; a backup is taken of it by \<^verbatim>\<open>fastStateBackup\<close>, and any reads follow.
  Then \<^verbatim>\<open>applyFastStateBackup\<close> returns; the token index and the id counter are those of
  the state of the backup; the id map is the one that the reads left without the ids
  greater than the counter of the backup, which are gone from the four maps and from the
  child lists while every other entry is as it was; this id map is observably equal to
  the id map of the state of the backup; and the current context is the one of the state
  of the backup. The AST ids are deleted first, then the context ids, each in descending
  order, with any policy for the children of a deleted node.
\<close>

theorem applyFastStateBackup_restores:
  "\<exists>restored.
     applyFastStateBackup policy (snd (runReads reads (parsed snapshot before)))
       (fastStateBackup (parsed snapshot before)) = Inr restored
   \<and> tokenIndex restored = tokenIndex (parsed snapshot before)
   \<and> idCounter (contextState restored) = idCounter (contextState (parsed snapshot before))
   \<and> nodeIdMapCollection (contextState restored) =
       withoutIds {nodeId. contextStateIdCounter (fastStateBackup (parsed snapshot before)) < nodeId}
         (nodeIdMapCollection (contextState (snd (runReads reads (parsed snapshot before)))))
   \<and> observablyEqual (nodeIdMapCollection (contextState restored))
       (nodeIdMapCollection (contextState (parsed snapshot before)))
   \<and> currentId restored = currentId (parsed snapshot before)"
proof -
  define state0 where "state0 = parsed snapshot before"
  define state1 where "state1 = snd (runReads reads state0)"
  have cons0: "consistent state0" unfolding state0_def by (rule parsed_consistent)
  then have "extends state0 state0" by (rule extends_refl)
  with runRead_nested(2) [of state0 reads] have ext: "extends state0 state1"
    unfolding nestedRun_def state1_def by blast
  from applyFastStateBackup_extends [OF cons0 ext, of policy]
  obtain restored where
    applied: "applyFastStateBackup policy state1 (fastStateBackup state0) = Inr restored"
    and token: "tokenIndex restored = tokenIndex state0"
    and counted: "idCounter (contextState restored) = idCounter (contextState state0)"
    and collection: "nodeIdMapCollection (contextState restored) =
             withoutIds {nodeId. idCounter (contextState state0) < nodeId}
               (nodeIdMapCollection (contextState state1))"
    and current: "currentId restored = currentId state0"
    by blast
  from extends_observablyEqual [OF cons0 ext] collection
  have observed: "observablyEqual (nodeIdMapCollection (contextState restored))
                    (nodeIdMapCollection (contextState state0))"
    by simp
  have "contextStateIdCounter (fastStateBackup state0) = idCounter (contextState state0)"
    by (simp add: fastStateBackup_def)
  with applied token counted collection observed current show ?thesis
    unfolding state0_def [symmetric] state1_def [symmetric] by simp
qed

theorem applyFastStateBackup_restores_witness:
  "nodeIdMapCollection (contextState (parsed twoNumbers readsBeforeBackup)) =
     \<lparr>astNodeById = [], contextNodeById = [(1, contextOne)], parentIdById = [],
      childIdsById = []\<rparr>
   \<and> fastStateBackup (parsed twoNumbers readsBeforeBackup) =
       \<lparr>backupTokenIndex = 0, contextStateIdCounter = 1, maybeContextNodeId = Some 1\<rparr>
   \<and> nodeIdMapCollection
       (contextState (snd (runReads readsAfterBackup (parsed twoNumbers readsBeforeBackup)))) =
     \<lparr>astNodeById = [(2, astTwo)],
      contextNodeById = [(1, contextOne\<lparr>attributeCounter := 3\<rparr>), (3, contextThree)],
      parentIdById = [(2, 1), (3, 1)],
      childIdsById = [(1, [2, 3])]\<rparr>
   \<and> tokenIndex (snd (runReads readsAfterBackup (parsed twoNumbers readsBeforeBackup))) = 1
   \<and> (\<exists>restored.
         applyFastStateBackup reparentChildren
           (snd (runReads readsAfterBackup (parsed twoNumbers readsBeforeBackup)))
           (fastStateBackup (parsed twoNumbers readsBeforeBackup)) = Inr restored
       \<and> tokenIndex restored = 0
       \<and> idCounter (contextState restored) = 1
       \<and> nodeIdMapCollection (contextState restored) =
           \<lparr>astNodeById = [],
            contextNodeById = [(1, contextOne\<lparr>attributeCounter := 3\<rparr>)],
            parentIdById = [],
            childIdsById = [(1, [])]\<rparr>
       \<and> observablyEqual (nodeIdMapCollection (contextState restored))
           \<lparr>astNodeById = [], contextNodeById = [(1, contextOne)], parentIdById = [],
            childIdsById = []\<rparr>
       \<and> currentId restored = Some 1)"
proof -
  let ?state0 = "parsed twoNumbers readsBeforeBackup"
  let ?state1 = "snd (runReads readsAfterBackup ?state0)"
  have state0: "?state0 =
      \<lparr>lexerSnapshot = twoNumbers, tokenIndex = 0,
       maybeCurrentToken = Some numberToken,
       maybeCurrentTokenKind = Some (tokenKind numberToken),
       contextState =
         \<lparr>idCounter = 1,
          nodeIdMapCollection =
            \<lparr>astNodeById = [], contextNodeById = [(1, contextOne)], parentIdById = [],
             childIdsById = []\<rparr>,
          leafNodeIds = []\<rparr>,
       maybeCurrentContextNode = Some contextOne\<rparr>"
    by (simp add: parsed_def readsBeforeBackup_def stateFactory_def startContext_def
          ParseContextUtils_startContext_def ParseContextUtils_newState_def Let_def
          twoNumbers_def stateOver_def contextOne_def)
  have state1: "nodeIdMapCollection (contextState ?state1) =
     \<lparr>astNodeById = [(2, astTwo)],
      contextNodeById = [(1, contextOne\<lparr>attributeCounter := 3\<rparr>), (3, contextThree)],
      parentIdById = [(2, 1), (3, 1)],
      childIdsById = [(1, [2, 3])]\<rparr>"
    "tokenIndex ?state1 = 1"
    unfolding state0
    by (simp_all add: readsAfterBackup_def startContext_def endContext_def readToken_def
          ParseContextUtils_startContext_def ParseContextUtils_endContext_def Let_def
          twoNumbers_def stateOver_def contextOne_def contextThree_def astTwo_def
          mapReplace_def mapGet_def mapDelete_def childIdsOf_def
          applyFastStateBackup_def fastStateBackup_def newAstNodeIds_def
          newContextNodeIds_def mapKeys_def ParseContextUtils_deleteContext_def
          deleteNode_def removeFromParent_def)
  have backup: "fastStateBackup ?state0 =
       \<lparr>backupTokenIndex = 0, contextStateIdCounter = 1, maybeContextNodeId = Some 1\<rparr>"
    unfolding state0 by (simp add: fastStateBackup_def contextOne_def)
  from applyFastStateBackup_restores [of reparentChildren readsAfterBackup twoNumbers
         readsBeforeBackup]
  obtain restored where
    "applyFastStateBackup reparentChildren ?state1 (fastStateBackup ?state0) = Inr restored"
    "tokenIndex restored = tokenIndex ?state0"
    "idCounter (contextState restored) = idCounter (contextState ?state0)"
    "nodeIdMapCollection (contextState restored) =
       withoutIds {nodeId. contextStateIdCounter (fastStateBackup ?state0) < nodeId}
         (nodeIdMapCollection (contextState ?state1))"
    "observablyEqual (nodeIdMapCollection (contextState restored))
       (nodeIdMapCollection (contextState ?state0))"
    "currentId restored = currentId ?state0"
    by blast
  moreover have "withoutIds {nodeId. contextStateIdCounter (fastStateBackup ?state0) < nodeId}
         (nodeIdMapCollection (contextState ?state1)) =
           \<lparr>astNodeById = [],
            contextNodeById = [(1, contextOne\<lparr>attributeCounter := 3\<rparr>)],
            parentIdById = [],
            childIdsById = [(1, [])]\<rparr>"
    unfolding state1 backup by (simp add: withoutIds_def)
  moreover have "tokenIndex ?state0 = 0" "idCounter (contextState ?state0) = 1"
    "currentId ?state0 = Some 1"
    "nodeIdMapCollection (contextState ?state0) =
       \<lparr>astNodeById = [], contextNodeById = [(1, contextOne)], parentIdById = [],
        childIdsById = []\<rparr>"
    unfolding state0 by (simp_all add: currentId_def contextOne_def)
  ultimately have "\<exists>restored.
         applyFastStateBackup reparentChildren ?state1 (fastStateBackup ?state0) = Inr restored
       \<and> tokenIndex restored = 0
       \<and> idCounter (contextState restored) = 1
       \<and> nodeIdMapCollection (contextState restored) =
           \<lparr>astNodeById = [],
            contextNodeById = [(1, contextOne\<lparr>attributeCounter := 3\<rparr>)],
            parentIdById = [],
            childIdsById = [(1, [])]\<rparr>
       \<and> observablyEqual (nodeIdMapCollection (contextState restored))
           \<lparr>astNodeById = [], contextNodeById = [(1, contextOne)], parentIdById = [],
            childIdsById = []\<rparr>
       \<and> currentId restored = Some 1"
    by (intro exI [of _ restored]) simp
  with state1 backup
    \<open>nodeIdMapCollection (contextState ?state0) =
       \<lparr>astNodeById = [], contextNodeById = [(1, contextOne)], parentIdById = [],
        childIdsById = []\<rparr>\<close>
  show ?thesis by (intro conjI)
qed

end
